theory Spec2Isabelle
  imports Main
begin

section \<open>The object store and the tree object\<close>

text \<open>
  The engine of \<^verbatim>\<open>bst_visualizer.py\<close> is the pair of classes \<^verbatim>\<open>BSTNode\<close> and
  \<^verbatim>\<open>BST\<close>. Nodes are mutable objects that point at each other through \<^verbatim>\<open>left\<close>,
  \<^verbatim>\<open>right\<close> and \<^verbatim>\<open>parent\<close>; the class is declared \<^verbatim>\<open>@dataclass(eq=False)\<close>, so
  nodes are compared by identity. A node is therefore modelled by its address in an
  object store, and an \<^verbatim>\<open>Optional[BSTNode]\<close> by an optional address
  (\<^verbatim>\<open>None\<close> is \<open>None\<close>). Keys are Python integers, hence \<open>int\<close>.
\<close>

type_synonym ref = nat

record BSTNode =
  key :: int
  left :: "ref option"
  right :: "ref option"
  parent :: "ref option"

type_synonym store = "ref \<Rightarrow> BSTNode"

text \<open>
  The state a method of \<^verbatim>\<open>BST\<close> works on: the store, the attribute \<^verbatim>\<open>self.root\<close>, and
  the address the next \<^verbatim>\<open>BSTNode(...)\<close> call will return. Every Python reference
  denotes an object, so the store is total; the cells from \<open>fresh\<close> upwards are not
  yet handed out. A node removed by \<^verbatim>\<open>delete\<close> stays in the store (the caller still
  holds it), with whatever its fields held.
\<close>

record BST =
  heap :: store
  root :: "ref option"
  fresh :: ref

datatype error = AttributeError | RecursionError

text \<open>Field assignments \<^verbatim>\<open>a.left = v\<close>, \<^verbatim>\<open>a.right = v\<close>, \<^verbatim>\<open>a.parent = v\<close>.\<close>

definition set_left :: "BST \<Rightarrow> ref \<Rightarrow> ref option \<Rightarrow> BST" where
  "set_left t a v = t\<lparr>heap := (heap t)(a := (heap t a)\<lparr>left := v\<rparr>)\<rparr>"

definition set_right :: "BST \<Rightarrow> ref \<Rightarrow> ref option \<Rightarrow> BST" where
  "set_right t a v = t\<lparr>heap := (heap t)(a := (heap t a)\<lparr>right := v\<rparr>)\<rparr>"

definition set_parent :: "BST \<Rightarrow> ref \<Rightarrow> ref option \<Rightarrow> BST" where
  "set_parent t a v = t\<lparr>heap := (heap t)(a := (heap t a)\<lparr>parent := v\<rparr>)\<rparr>"

text \<open>\<^verbatim>\<open>BST()\<close>: \<^verbatim>\<open>self.root = None\<close>, in a store where nothing is allocated yet.\<close>

definition BST_init :: BST where
  "BST_init =
     \<lparr>heap = (\<lambda>_. \<lparr>key = 0, left = None, right = None, parent = None\<rparr>),
      root = None, fresh = 0\<rparr>"

text \<open>
  \<^verbatim>\<open>is_left_child\<close>: \<^verbatim>\<open>self.parent is not None and self.parent.left is self\<close>, and its
  mirror image.
\<close>

definition is_left_child :: "store \<Rightarrow> ref \<Rightarrow> bool" where
  "is_left_child h u =
     (case parent (h u) of None \<Rightarrow> False | Some p \<Rightarrow> left (h p) = Some u)"

definition is_right_child :: "store \<Rightarrow> ref \<Rightarrow> bool" where
  "is_right_child h u =
     (case parent (h u) of None \<Rightarrow> False | Some p \<Rightarrow> right (h p) = Some u)"

section \<open>The methods of \<^verbatim>\<open>BST\<close>\<close>

text \<open>
  The \<^verbatim>\<open>while\<close> loops and the nested recursive functions follow pointers of the store,
  so on a store with a cycle they do not return. They are defined as partial functions:
  \<open>None\<close> is "does not return", \<open>Some r\<close> is "returns \<open>r\<close>". The loops of
  \<^verbatim>\<open>insert\<close>, \<^verbatim>\<open>search\<close> and \<^verbatim>\<open>minimum\<close> use no stack. The nested functions of
  \<^verbatim>\<open>inorder\<close>, \<^verbatim>\<open>nodes\<close> and \<^verbatim>\<open>depth\<close> call themselves once per level of the tree, and
  the interpreter admits only so many nested calls; they are given below both as
  written and, for \<^verbatim>\<open>inorder\<close>, under that limit.
\<close>

subsection \<open>insert\<close>

text \<open>
  The conditional expression \<^verbatim>\<open>x.left if key < x.key else x.right\<close>, which both
  \<^verbatim>\<open>insert\<close> and \<^verbatim>\<open>search\<close> assign to \<open>x\<close> at the end of a loop iteration.
\<close>

definition descend :: "store \<Rightarrow> int \<Rightarrow> ref \<Rightarrow> ref option" where
  "descend h k a = (if k < key (h a) then left (h a) else right (h a))"

text \<open>
  The loop of \<^verbatim>\<open>insert\<close>, with the loop variables \<open>x\<close> and \<open>y\<close>. \<open>Inl x\<close> is the
  \<^verbatim>\<open>return None, x\<close> inside the loop (duplicate key), \<open>Inr y\<close> is the fall-through with
  the last node visited.
\<close>

partial_function (option) insert_loop ::
  "store \<Rightarrow> int \<Rightarrow> ref option \<Rightarrow> ref option \<Rightarrow> (ref + ref option) option" where
  "insert_loop h k x y =
     (case x of
        None \<Rightarrow> Some (Inr y)
      | Some a \<Rightarrow>
          if k = key (h a) then Some (Inl a)
          else insert_loop h k (descend h k a) (Some a))"

text \<open>
  \<^verbatim>\<open>insert\<close> returns the pair \<^verbatim>\<open>(None, x)\<close> for a duplicate and \<^verbatim>\<open>(z, y)\<close> for a new node
  \<open>z\<close> with parent \<open>y\<close>.
\<close>

definition insert_bst :: "BST \<Rightarrow> int \<Rightarrow> ((ref option \<times> ref option) \<times> BST) option" where
  "insert_bst t k =
     (case insert_loop (heap t) k (root t) None of
        None \<Rightarrow> None
      | Some (Inl x) \<Rightarrow> Some ((None, Some x), t)
      | Some (Inr y) \<Rightarrow>
          (let z = fresh t;
               t1 = t\<lparr>heap := (heap t)(z := \<lparr>key = k, left = None, right = None, parent = y\<rparr>),
                      fresh := Suc z\<rparr>;
               t2 = (case y of
                       None \<Rightarrow> t1\<lparr>root := Some z\<rparr>
                     | Some b \<Rightarrow>
                         if k < key (heap t1 b) then set_left t1 b (Some z)
                         else set_right t1 b (Some z))
           in Some ((Some z, y), t2)))"

subsection \<open>search\<close>

partial_function (option) search_loop ::
  "store \<Rightarrow> int \<Rightarrow> ref option \<Rightarrow> ref list \<Rightarrow> (ref list \<times> ref option) option" where
  "search_loop h k x path =
     (case x of
        None \<Rightarrow> Some (path, None)
      | Some a \<Rightarrow>
          if k = key (h a) then Some (path @ [a], Some a)
          else search_loop h k (descend h k a) (path @ [a]))"

definition search :: "BST \<Rightarrow> int \<Rightarrow> (ref list \<times> ref option) option" where
  "search t k = search_loop (heap t) k (root t) []"

subsection \<open>minimum\<close>

text \<open>
  The parameter is annotated \<^verbatim>\<open>BSTNode\<close>, but \<^verbatim>\<open>delete\<close> passes the optional field
  \<^verbatim>\<open>z.right\<close> and Python does not enforce annotations: on \<^verbatim>\<open>None\<close> the loop condition
  \<^verbatim>\<open>x.left is not None\<close> raises \<^verbatim>\<open>AttributeError\<close>.
\<close>

partial_function (option) minimum :: "store \<Rightarrow> ref option \<Rightarrow> (error + ref) option" where
  "minimum h x =
     (case x of
        None \<Rightarrow> Some (Inl AttributeError)
      | Some a \<Rightarrow>
          (case left (h a) of
             None \<Rightarrow> Some (Inr a)
           | Some l \<Rightarrow> minimum h (Some l)))"

subsection \<open>transplant\<close>

text \<open>
  Every call in \<^verbatim>\<open>delete\<close> hands \<^verbatim>\<open>transplant\<close> a node for \<open>u\<close>. The last statement
  reads \<^verbatim>\<open>u.parent\<close> after the first one has run.
\<close>

definition transplant :: "BST \<Rightarrow> ref \<Rightarrow> ref option \<Rightarrow> BST" where
  "transplant t u v =
     (let t1 = (case parent (heap t u) of
                  None \<Rightarrow> t\<lparr>root := v\<rparr>
                | Some p \<Rightarrow>
                    if is_left_child (heap t) u then set_left t p v
                    else set_right t p v)
      in case v of
           None \<Rightarrow> t1
         | Some w \<Rightarrow> set_parent t1 w (parent (heap t1 u)))"

subsection \<open>delete\<close>

text \<open>The statements of \<^verbatim>\<open>delete\<close> after the search has found the node \<open>z\<close>.\<close>

definition splice :: "BST \<Rightarrow> ref \<Rightarrow> (error + BST) option" where
  "splice t z =
     (case left (heap t z) of
        None \<Rightarrow> Some (Inr (transplant t z (right (heap t z))))
      | Some _ \<Rightarrow>
          (case right (heap t z) of
             None \<Rightarrow> Some (Inr (transplant t z (left (heap t z))))
           | Some _ \<Rightarrow>
               (case minimum (heap t) (right (heap t z)) of
                  None \<Rightarrow> None
                | Some (Inl e) \<Rightarrow> Some (Inl e)
                | Some (Inr y) \<Rightarrow>
                    (let t1 = (if parent (heap t y) \<noteq> Some z then
                                 (let ta = transplant t y (right (heap t y));
                                      tb = set_right ta y (right (heap ta z))
                                  in case right (heap tb y) of
                                       None \<Rightarrow> tb
                                     | Some r \<Rightarrow> set_parent tb r (Some y))
                               else t);
                         t2 = transplant t1 z (Some y);
                         t3 = set_left t2 y (left (heap t2 z))
                     in Some (Inr (case left (heap t3 y) of
                                     None \<Rightarrow> t3
                                   | Some l \<Rightarrow> set_parent t3 l (Some y)))))))"

definition delete :: "BST \<Rightarrow> int \<Rightarrow> (error + ref option \<times> BST) option" where
  "delete t k =
     (case search t k of
        None \<Rightarrow> None
      | Some (_, None) \<Rightarrow> Some (Inr (None, t))
      | Some (_, Some z) \<Rightarrow>
          (case splice t z of
             None \<Rightarrow> None
           | Some (Inl e) \<Rightarrow> Some (Inl e)
           | Some (Inr t') \<Rightarrow> Some (Inr (Some z, t'))))"

subsection \<open>inorder, nodes, depth, clear\<close>

text \<open>
  The nested \<^verbatim>\<open>dfs\<close> appends to the list \<^verbatim>\<open>res\<close> of the enclosing call; the list is
  threaded through. \<^verbatim>\<open>not n\<close> on a node is \<^verbatim>\<open>n is None\<close>, the class defining neither
  \<^verbatim>\<open>__bool__\<close> nor \<^verbatim>\<open>__len__\<close>.

  \<open>inorder_dfs\<close>, \<open>nodes_dfs\<close> and \<open>depth_h\<close> are the three walks on a stack without
  bound. They say which keys, which nodes and which depth the tree in the store has,
  and the invariants are stated through them. What a call of \<^verbatim>\<open>inorder()\<close> returns in the
  interpreter is \<open>inorder_limited\<close>, further down.
\<close>

partial_function (option) inorder_dfs :: "store \<Rightarrow> ref option \<Rightarrow> int list \<Rightarrow> int list option" where
  "inorder_dfs h n res =
     (case n of
        None \<Rightarrow> Some res
      | Some a \<Rightarrow>
          Option.bind (inorder_dfs h (left (h a)) res)
            (\<lambda>res1. inorder_dfs h (right (h a)) (res1 @ [key (h a)])))"

definition inorder :: "BST \<Rightarrow> int list option" where
  "inorder t = inorder_dfs (heap t) (root t) []"

partial_function (option) nodes_dfs :: "store \<Rightarrow> ref option \<Rightarrow> ref list \<Rightarrow> ref list option" where
  "nodes_dfs h n out =
     (case n of
        None \<Rightarrow> Some out
      | Some a \<Rightarrow>
          Option.bind (nodes_dfs h (left (h a)) out)
            (\<lambda>out1. nodes_dfs h (right (h a)) (out1 @ [a])))"

definition nodes :: "BST \<Rightarrow> ref list option" where
  "nodes t = nodes_dfs (heap t) (root t) []"

partial_function (option) depth_h :: "store \<Rightarrow> ref option \<Rightarrow> int option" where
  "depth_h h n =
     (case n of
        None \<Rightarrow> Some 0
      | Some a \<Rightarrow>
          Option.bind (depth_h h (left (h a)))
            (\<lambda>dl. Option.bind (depth_h h (right (h a)))
               (\<lambda>dr. Some (1 + max dl dr))))"

definition depth :: "BST \<Rightarrow> int option" where
  "depth t = depth_h (heap t) (root t)"

text \<open>
  \<^verbatim>\<open>BST.inorder\<close> in the interpreter. A call of a Python function raises
  \<^verbatim>\<open>RecursionError\<close> when the stack already holds as many frames as the recursion limit
  allows (\<^verbatim>\<open>sys.getrecursionlimit()\<close>, 1000 unless changed, and the file does not change
  it). \<open>b\<close> is the number of nested calls of \<^verbatim>\<open>dfs\<close> still allowed when \<^verbatim>\<open>inorder\<close>
  makes the first one: the limit less the frames in use at that moment. \<^verbatim>\<open>dfs\<close> is
  called on the empty child references too, so a tree of depth \<open>d\<close> needs \<open>d + 1\<close>
  nested calls. The exception leaves \<^verbatim>\<open>inorder\<close>, which catches nothing.
\<close>

fun inorder_dfs_limited :: "nat \<Rightarrow> store \<Rightarrow> ref option \<Rightarrow> int list \<Rightarrow> error + int list" where
  "inorder_dfs_limited 0 h n res = Inl RecursionError"
| "inorder_dfs_limited (Suc b) h n res =
     (case n of
        None \<Rightarrow> Inr res
      | Some a \<Rightarrow>
          (case inorder_dfs_limited b h (left (h a)) res of
             Inl e \<Rightarrow> Inl e
           | Inr res1 \<Rightarrow> inorder_dfs_limited b h (right (h a)) (res1 @ [key (h a)])))"

definition inorder_limited :: "nat \<Rightarrow> BST \<Rightarrow> error + int list" where
  "inorder_limited b t = inorder_dfs_limited b (heap t) (root t) []"

definition clear :: "BST \<Rightarrow> BST" where
  "clear t = t\<lparr>root := None\<rparr>"

section \<open>Sequences of calls\<close>

text \<open>
  A client calls \<^verbatim>\<open>insert\<close>, \<^verbatim>\<open>delete\<close> and \<^verbatim>\<open>clear\<close> one after the other on the same
  tree and drops what they return. A call that does not return, or that raises, ends the
  sequence there.
\<close>

datatype operation = Insert int | Delete int | Clear

fun run :: "BST \<Rightarrow> operation list \<Rightarrow> (error + BST) option" where
  "run t [] = Some (Inr t)"
| "run t (Insert k # ops) =
     (case insert_bst t k of
        None \<Rightarrow> None
      | Some (_, t') \<Rightarrow> run t' ops)"
| "run t (Delete k # ops) =
     (case delete t k of
        None \<Rightarrow> None
      | Some (Inl e) \<Rightarrow> Some (Inl e)
      | Some (Inr (_, t')) \<Rightarrow> run t' ops)"
| "run t (Clear # ops) = run (clear t) ops"

text \<open>The recursion equations are the code equations of the partial functions.\<close>

declare insert_loop.simps [code]
declare search_loop.simps [code]
declare minimum.simps [code]
declare inorder_dfs.simps [code]
declare nodes_dfs.simps [code]
declare depth_h.simps [code]

section \<open>What the specification talks about\<close>

subsection \<open>The invariants, read off the store\<close>

text \<open>
  "Every key in the subtree rooted at \<open>n.left\<close>" is what the in-order walk started
  at \<open>n.left\<close> collects; "every node of the tree" is what \<^verbatim>\<open>nodes()\<close> returns. With
  these the BST property and the absence of duplicate keys are statements about the
  store alone.
\<close>

definition subtree_keys :: "store \<Rightarrow> ref option \<Rightarrow> int list option" where
  "subtree_keys h x = inorder_dfs h x []"

definition bst_at :: "store \<Rightarrow> ref \<Rightarrow> bool" where
  "bst_at h n =
     (case (subtree_keys h (left (h n)), subtree_keys h (right (h n))) of
        (Some ls, Some rs) \<Rightarrow> (\<forall>x \<in> set ls. x < key (h n)) \<and> (\<forall>x \<in> set rs. key (h n) < x)
      | _ \<Rightarrow> False)"

definition bst_property :: "BST \<Rightarrow> bool" where
  "bst_property t =
     (case nodes t of
        None \<Rightarrow> False
      | Some ns \<Rightarrow> (\<forall>n \<in> set ns. bst_at (heap t) n) \<and> distinct (map (\<lambda>n. key (heap t n)) ns))"

text \<open>
  Parent links: a node with a parent is exactly one of that parent's two children; the
  children of a node point back at it; the root has no parent.
\<close>

definition child_of_parent :: "store \<Rightarrow> ref \<Rightarrow> bool" where
  "child_of_parent h n =
     (case parent (h n) of
        None \<Rightarrow> True
      | Some p \<Rightarrow> (left (h p) = Some n) \<noteq> (right (h p) = Some n))"

definition parent_of_children :: "store \<Rightarrow> ref \<Rightarrow> bool" where
  "parent_of_children h p =
     ((case left (h p) of None \<Rightarrow> True | Some c \<Rightarrow> parent (h c) = Some p) \<and>
      (case right (h p) of None \<Rightarrow> True | Some c \<Rightarrow> parent (h c) = Some p))"

definition parent_links :: "BST \<Rightarrow> bool" where
  "parent_links t =
     (case nodes t of
        None \<Rightarrow> False
      | Some ns \<Rightarrow>
          (\<forall>n \<in> set ns. child_of_parent (heap t) n \<and> parent_of_children (heap t) n) \<and>
          (case root t of None \<Rightarrow> True | Some r \<Rightarrow> parent (heap t r) = None))"

text \<open>
  \<^verbatim>\<open>BSTNode(...)\<close> returns an object that did not exist before: the nodes of the tree
  all lie below the next address to be handed out.
\<close>

definition allocated :: "BST \<Rightarrow> bool" where
  "allocated t = (case nodes t of None \<Rightarrow> False | Some ns \<Rightarrow> \<forall>n \<in> set ns. n < fresh t)"

text \<open>The keys a sequence of calls leaves in the tree, by set semantics.\<close>

fun keys_after :: "int set \<Rightarrow> operation list \<Rightarrow> int set" where
  "keys_after S [] = S"
| "keys_after S (Insert k # ops) = keys_after (S \<union> {k}) ops"
| "keys_after S (Delete k # ops) = keys_after (S - {k}) ops"
| "keys_after S (Clear # ops) = keys_after {} ops"

subsection \<open>Tree shapes\<close>

text \<open>
  The shape a well-formed store holds below a reference: which node sits where, with
  its key. \<open>repr h x p t\<close> says that the reference \<open>x\<close> leads, in the store \<open>h\<close>, to
  exactly the shape \<open>t\<close>, every node pointing back to its parent and the topmost one to
  \<open>p\<close>.
\<close>

datatype shape = Tip | Bin shape ref int shape

fun addrs :: "shape \<Rightarrow> ref list" where
  "addrs Tip = []"
| "addrs (Bin l a k r) = addrs l @ a # addrs r"

fun keys :: "shape \<Rightarrow> int list" where
  "keys Tip = []"
| "keys (Bin l a k r) = keys l @ k # keys r"

fun height :: "shape \<Rightarrow> int" where
  "height Tip = 0"
| "height (Bin l a k r) = 1 + max (height l) (height r)"

text \<open>A shape that only ever branches to the right.\<close>

fun rspine :: "shape \<Rightarrow> bool" where
  "rspine Tip = True"
| "rspine (Bin l a k r) = (l = Tip \<and> rspine r)"

fun apex :: "shape \<Rightarrow> ref option" where
  "apex Tip = None"
| "apex (Bin l a k r) = Some a"

fun repr :: "store \<Rightarrow> ref option \<Rightarrow> ref option \<Rightarrow> shape \<Rightarrow> bool" where
  "repr h x p Tip = (x = None)"
| "repr h x p (Bin l a k r) =
     (x = Some a \<and> key (h a) = k \<and> parent (h a) = p \<and>
      repr h (left (h a)) (Some a) l \<and> repr h (right (h a)) (Some a) r)"

text \<open>\<open>links\<close> is \<open>repr\<close> without the parent pointers: what the walks follow.\<close>

fun links :: "store \<Rightarrow> ref option \<Rightarrow> shape \<Rightarrow> bool" where
  "links h x Tip = (x = None)"
| "links h x (Bin l a k r) =
     (x = Some a \<and> key (h a) = k \<and> links h (left (h a)) l \<and> links h (right (h a)) r)"

text \<open>
  \<open>upchain h n cs\<close>: the list \<open>cs\<close> starts at \<open>n\<close> and each further element is the parent
  of the one before.
\<close>

fun upchain :: "store \<Rightarrow> ref \<Rightarrow> ref list \<Rightarrow> bool" where
  "upchain h n [] = False"
| "upchain h n [c] = (c = n)"
| "upchain h n (c # d # cs) = (c = n \<and> parent (h n) = Some d \<and> upchain h d (d # cs))"

fun ordered :: "shape \<Rightarrow> bool" where
  "ordered Tip = True"
| "ordered (Bin l a k r) =
     (ordered l \<and> ordered r \<and> (\<forall>x \<in> set (keys l). x < k) \<and> (\<forall>x \<in> set (keys r). k < x))"

text \<open>
  A state is well formed with shape \<open>t\<close>: the root leads to \<open>t\<close>, the keys obey the
  search-tree order, and every node of \<open>t\<close> has been allocated.
\<close>

definition well_formed :: "BST \<Rightarrow> shape \<Rightarrow> bool" where
  "well_formed s t = (repr (heap s) (root s) None t \<and> ordered t \<and> (\<forall>a \<in> set (addrs t). a < fresh s))"

text \<open>The trail of a key through a shape, and the node it ends at, if any.\<close>

fun trail :: "int \<Rightarrow> shape \<Rightarrow> ref list" where
  "trail k Tip = []"
| "trail k (Bin l a ka r) =
     a # (if k = ka then [] else if k < ka then trail k l else trail k r)"

fun find_node :: "int \<Rightarrow> shape \<Rightarrow> ref option" where
  "find_node k Tip = None"
| "find_node k (Bin l a ka r) =
     (if k = ka then Some a else if k < ka then find_node k l else find_node k r)"

text \<open>
  What the specification says a trail is, on the store: it starts at the root, each
  further node is the left child of its predecessor when the key is smaller than the
  predecessor's and the right child when it is larger, and it stops either at a node
  holding the key or where the child to descend to is missing.
\<close>

fun is_trail :: "store \<Rightarrow> int \<Rightarrow> ref option \<Rightarrow> ref list \<Rightarrow> ref option \<Rightarrow> bool" where
  "is_trail h k x [] found = (x = None \<and> found = None)"
| "is_trail h k x (a # as) found =
     (x = Some a \<and>
      (if k = key (h a) then as = [] \<and> found = Some a
       else is_trail h k (if k < key (h a) then left (h a) else right (h a)) as found))"

subsection \<open>The operations on shapes, in the specification's words\<close>

text \<open>
  Insertion links a new leaf \<open>z\<close> where the walk falls off the tree and changes
  nothing when the key is met.
\<close>

fun ins :: "ref \<Rightarrow> int \<Rightarrow> shape \<Rightarrow> shape" where
  "ins z k Tip = Bin Tip z k Tip"
| "ins z k (Bin l a ka r) =
     (if k = ka then Bin l a ka r
      else if k < ka then Bin (ins z k l) a ka r
      else Bin l a ka (ins z k r))"

text \<open>
  Removal, in three cases: no left child, the right subtree moves up; no right child,
  the left subtree moves up; two children, the leftmost node of the right subtree is
  taken out of it (its own right subtree moving into its place) and put where the
  removed node was, over the old left subtree and what is left of the right one.
\<close>

fun split_min :: "shape \<Rightarrow> (ref \<times> int) \<times> shape" where
  "split_min Tip = ((0, 0), Tip)"
| "split_min (Bin l a k r) =
     (if l = Tip then ((a, k), r)
      else (fst (split_min l), Bin (snd (split_min l)) a k r))"

fun del_root :: "shape \<Rightarrow> shape" where
  "del_root Tip = Tip"
| "del_root (Bin l a k r) =
     (if l = Tip then r
      else if r = Tip then l
      else Bin l (fst (fst (split_min r))) (snd (fst (split_min r))) (snd (split_min r)))"

fun del :: "int \<Rightarrow> shape \<Rightarrow> shape" where
  "del k Tip = Tip"
| "del k (Bin l a ka r) =
     (if k = ka then del_root (Bin l a ka r)
      else if k < ka then Bin (del k l) a ka r
      else Bin l a ka (del k r))"

text \<open>
  \<open>subst u t' t\<close> puts the shape \<open>t'\<close> where the node \<open>u\<close> and everything below it
  was: what \<^verbatim>\<open>transplant\<close> is specified to do.
\<close>

fun subst :: "ref \<Rightarrow> shape \<Rightarrow> shape \<Rightarrow> shape" where
  "subst u t' Tip = Tip"
| "subst u t' (Bin l a k r) =
     (if a = u then t' else Bin (subst u t' l) a k (subst u t' r))"

fun below :: "ref \<Rightarrow> shape \<Rightarrow> shape" where
  "below u Tip = Tip"
| "below u (Bin l a k r) =
     (if a = u then Bin l a k r
      else if u \<in> set (addrs l) then below u l else below u r)"

subsection \<open>Shapes with one subtree cut out\<close>

text \<open>
  \<open>hole h u v x p t\<close> is \<open>repr h x p t\<close> with the node \<open>u\<close> and everything below it
  left out of account: where \<open>t\<close> has \<open>u\<close>, the store is only required to hold the
  reference \<open>v\<close>. \<open>slot_parent u p t\<close> is the parent \<open>t\<close> gives \<open>u\<close>, and
  \<open>subst u Tip t\<close> lists the nodes that are not below \<open>u\<close>.
\<close>

fun hole :: "store \<Rightarrow> ref \<Rightarrow> ref option \<Rightarrow> ref option \<Rightarrow> ref option \<Rightarrow> shape \<Rightarrow> bool" where
  "hole h u v x p Tip = (x = None)"
| "hole h u v x p (Bin l a k r) =
     (if a = u then x = v
      else x = Some a \<and> key (h a) = k \<and> parent (h a) = p \<and>
           hole h u v (left (h a)) (Some a) l \<and> hole h u v (right (h a)) (Some a) r)"

fun slot_parent :: "ref \<Rightarrow> ref option \<Rightarrow> shape \<Rightarrow> ref option" where
  "slot_parent u p Tip = None"
| "slot_parent u p (Bin l a k r) =
     (if a = u then p
      else if u \<in> set (addrs l) then slot_parent u (Some a) l
      else slot_parent u (Some a) r)"

subsection \<open>Concrete trees\<close>

text \<open>
  The scenario of the specification: the nine keys inserted into an empty tree, then
  key 3 removed. Nodes are allocated in insertion order, so the store holds key 8 at
  address 0, 3 at 1, 10 at 2, 1 at 3, 6 at 4, 14 at 5, 4 at 6, 7 at 7 and 13 at 8.
\<close>

definition scenario_inserts :: "operation list" where
  "scenario_inserts = map Insert [8, 3, 10, 1, 6, 14, 4, 7, 13]"

definition after_inserts :: BST where
  "after_inserts =
     (case run BST_init scenario_inserts of Some (Inr t) \<Rightarrow> t | _ \<Rightarrow> BST_init)"

definition after_delete :: BST where
  "after_delete =
     (case delete after_inserts 3 of Some (Inr (_, t)) \<Rightarrow> t | _ \<Rightarrow> BST_init)"

definition keys_of :: "BST \<Rightarrow> ref list \<Rightarrow> int list" where
  "keys_of t ns = map (\<lambda>n. key (heap t n)) ns"

text \<open>A tree of three nodes, keys 2, 1, 3 at the addresses 0, 1, 2.\<close>

definition small_ops :: "operation list" where
  "small_ops = [Insert 2, Insert 1, Insert 3, Delete 2]"

definition small_tree :: BST where
  "small_tree =
     (case run BST_init [Insert 2, Insert 1, Insert 3] of Some (Inr t) \<Rightarrow> t | _ \<Rightarrow> BST_init)"

definition small_after :: BST where
  "small_after = (case run BST_init small_ops of Some (Inr t) \<Rightarrow> t | _ \<Rightarrow> BST_init)"

text \<open>The keys 1 to 1000 inserted in ascending order into an empty tree.\<close>

definition deep_ops :: "operation list" where
  "deep_ops = map Insert [1..1000]"

definition deep_tree :: BST where
  "deep_tree = (case run BST_init deep_ops of Some (Inr t) \<Rightarrow> t | _ \<Rightarrow> BST_init)"

text \<open>A tree holding the single key 5, and what inserting and removing 5 makes of it.\<close>

definition single_tree :: BST where
  "single_tree = (case insert_bst BST_init 5 of Some (_, t) \<Rightarrow> t | None \<Rightarrow> BST_init)"

definition round_trip :: BST where
  "round_trip =
     (case run single_tree [Insert 5, Delete 5] of Some (Inr t) \<Rightarrow> t | _ \<Rightarrow> single_tree)"

section \<open>Shapes and the store\<close>

subsection \<open>Reading a shape off the store\<close>

lemma repr_top: "repr h x p t \<Longrightarrow> x = apex t"
  by (cases t) auto

lemma repr_frame:
  "repr h x p t \<Longrightarrow> (\<forall>a \<in> set (addrs t). h' a = h a) \<Longrightarrow> repr h' x p t"
  by (induction t arbitrary: x p) auto

lemma repr_keys: "repr h x p t \<Longrightarrow> keys t = map (\<lambda>a. key (h a)) (addrs t)"
  by (induction t arbitrary: x p) auto

lemma ordered_sorted: "ordered t \<Longrightarrow> sorted_wrt (<) (keys t)"
proof (induction t)
  case Tip
  show ?case by simp
next
  case (Bin l a k r)
  then have "\<forall>x \<in> set (keys l). \<forall>y \<in> set (k # keys r). x < y"
    by (auto intro: less_trans)
  with Bin show ?case by (simp add: sorted_wrt_append)
qed

lemma ordered_distinct_keys: "ordered t \<Longrightarrow> distinct (keys t)"
  using ordered_sorted [of t] by (simp add: strict_sorted_iff)

lemma repr_distinct_addrs: "repr h x p t \<Longrightarrow> ordered t \<Longrightarrow> distinct (addrs t)"
  using ordered_distinct_keys [of t] repr_keys [of h x p t] by (simp add: distinct_map)

lemma inorder_dfs_repr: "repr h x p t \<Longrightarrow> inorder_dfs h x res = Some (res @ keys t)"
proof (induction t arbitrary: x p res)
  case Tip
  then show ?case by (simp add: inorder_dfs.simps)
next
  case (Bin l a k r)
  from Bin.prems have L: "repr h (left (h a)) (Some a) l" and R: "repr h (right (h a)) (Some a) r"
    and x: "x = Some a" "key (h a) = k" by auto
  show ?case
    by (subst inorder_dfs.simps) (simp add: x Bin.IH(1) [OF L] Bin.IH(2) [OF R])
qed

lemma nodes_dfs_repr: "repr h x p t \<Longrightarrow> nodes_dfs h x out = Some (out @ addrs t)"
proof (induction t arbitrary: x p out)
  case Tip
  then show ?case by (simp add: nodes_dfs.simps)
next
  case (Bin l a k r)
  from Bin.prems have L: "repr h (left (h a)) (Some a) l" and R: "repr h (right (h a)) (Some a) r"
    and x: "x = Some a" by auto
  show ?case
    by (subst nodes_dfs.simps) (simp add: x Bin.IH(1) [OF L] Bin.IH(2) [OF R])
qed

lemma depth_h_repr: "repr h x p t \<Longrightarrow> depth_h h x = Some (height t)"
proof (induction t arbitrary: x p)
  case Tip
  then show ?case by (simp add: depth_h.simps)
next
  case (Bin l a k r)
  from Bin.prems have L: "repr h (left (h a)) (Some a) l" and R: "repr h (right (h a)) (Some a) r"
    and x: "x = Some a" by auto
  show ?case
    by (subst depth_h.simps) (simp add: x Bin.IH(1) [OF L] Bin.IH(2) [OF R])
qed

lemma search_loop_repr:
  "repr h x p t \<Longrightarrow> search_loop h k x path = Some (path @ trail k t, find_node k t)"
proof (induction t arbitrary: x p path)
  case Tip
  then show ?case by (simp add: search_loop.simps)
next
  case (Bin l a ka r)
  from Bin.prems have L: "repr h (left (h a)) (Some a) l" and R: "repr h (right (h a)) (Some a) r"
    and x: "x = Some a" "key (h a) = ka" by auto
  show ?case
    by (subst search_loop.simps) (simp add: x descend_def Bin.IH(1) [OF L] Bin.IH(2) [OF R])
qed

lemma trail_Nil: "trail k t = [] \<longleftrightarrow> t = Tip"
  by (cases t) auto

lemma insert_loop_repr:
  "repr h x p t \<Longrightarrow>
   insert_loop h k x y =
     Some (case find_node k t of
             Some a \<Rightarrow> Inl a
           | None \<Rightarrow> Inr (if t = Tip then y else Some (last (trail k t))))"
proof (induction t arbitrary: x p y)
  case Tip
  then show ?case by (simp add: insert_loop.simps)
next
  case (Bin l a ka r)
  from Bin.prems have L: "repr h (left (h a)) (Some a) l" and R: "repr h (right (h a)) (Some a) r"
    and x: "x = Some a" "key (h a) = ka" by auto
  show ?case
    by (subst insert_loop.simps)
      (auto simp: x descend_def trail_Nil Bin.IH(1) [OF L] Bin.IH(2) [OF R] split: option.splits)
qed

lemma find_node_Some: "ordered t \<Longrightarrow> k \<in> set (keys t) \<Longrightarrow> \<exists>a. find_node k t = Some a"
  by (induction t) auto

lemma find_node_None: "k \<notin> set (keys t) \<Longrightarrow> find_node k t = None"
  by (induction t) auto

lemma find_node_key: "repr h x p t \<Longrightarrow> find_node k t = Some a \<Longrightarrow> key (h a) = k \<and> a \<in> set (addrs t)"
  by (induction t arbitrary: x p) (auto split: if_splits)

subsection \<open>Insertion\<close>

lemma find_node_ins: "find_node k t = Some a \<Longrightarrow> ins z k t = t"
  by (induction t) (auto split: if_splits)

lemma keys_ins: "set (keys (ins z k t)) = insert k (set (keys t))"
  by (induction t) auto

lemma addrs_ins: "find_node k t = None \<Longrightarrow> set (addrs (ins z k t)) = insert z (set (addrs t))"
  by (induction t) (auto split: if_splits)

lemma ordered_ins: "ordered t \<Longrightarrow> ordered (ins z k t)"
  by (induction t) (auto simp: keys_ins)

lemma last_trail: "t \<noteq> Tip \<Longrightarrow> last (trail k t) \<in> set (addrs t)"
  by (induction t) (auto simp: trail_Nil)

lemma ins_repr:
  assumes "repr h (Some a) p t" and "distinct (addrs t)" and "find_node k t = None"
    and "z \<notin> set (addrs t)"
    and "h' z = \<lparr>key = k, left = None, right = None, parent = Some (last (trail k t))\<rparr>"
    and "h' (last (trail k t)) =
           (if k < key (h (last (trail k t))) then (h (last (trail k t)))\<lparr>left := Some z\<rparr>
            else (h (last (trail k t)))\<lparr>right := Some z\<rparr>)"
    and "\<forall>c. c \<noteq> z \<and> c \<noteq> last (trail k t) \<longrightarrow> h' c = h c"
  shows "repr h' (Some a) p (ins z k t)"
  using assms
proof (induction t arbitrary: a p)
  case Tip
  then show ?case by simp
next
  case (Bin l b kb r)
  from Bin.prems(1) have ab: "a = b" and kb: "key (h b) = kb" and pb: "parent (h b) = p"
    and L: "repr h (left (h b)) (Some b) l" and R: "repr h (right (h b)) (Some b) r"
    by auto
  from Bin.prems(3) have ne: "k \<noteq> kb" by (auto split: if_splits)
  from Bin.prems(2) have dl: "distinct (addrs l)" and dr: "distinct (addrs r)"
    and bl: "b \<notin> set (addrs l)" and br: "b \<notin> set (addrs r)"
    and lr: "set (addrs l) \<inter> set (addrs r) = {}" by auto
  from Bin.prems(4) have zb: "z \<noteq> b" and zl: "z \<notin> set (addrs l)" and zr: "z \<notin> set (addrs r)"
    by auto
  show ?case
  proof (cases "k < kb")
    case True
    show ?thesis
    proof (cases l)
      case Tip
      with True ne have lt: "last (trail k (Bin l b kb r)) = b" by simp
      have hb: "h' b = (h b)\<lparr>left := Some z\<rparr>"
        using Bin.prems(6) True kb unfolding lt by simp
      have hz: "h' z = \<lparr>key = k, left = None, right = None, parent = Some b\<rparr>"
        using Bin.prems(5) unfolding lt by simp
      have "\<forall>c \<in> set (addrs r). h' c = h c"
        using Bin.prems(7) br zr unfolding lt by auto
      with R have "repr h' (right (h b)) (Some b) r" by (rule repr_frame)
      with Tip True ne ab kb pb hb hz show ?thesis by simp
    next
      case (Bin ll c kc lr')
      with True ne have lt: "last (trail k (Bin l b kb r)) = last (trail k l)"
        by simp
      have in_l: "last (trail k l) \<in> set (addrs l)"
        using Bin by (intro last_trail) simp
      from L Bin have lc: "left (h b) = Some c" by simp
      have fl: "find_node k l = None" using Bin.prems(3) True ne by simp
      have IH: "repr h' (Some c) (Some b) (ins z k l)"
        using Bin.IH(1) [of c "Some b"] L lc dl fl zl Bin.prems(5,6,7) unfolding lt
        by simp
      have nb: "b \<noteq> last (trail k l)" using in_l bl by auto
      have hb: "h' b = h b" using Bin.prems(7) zb nb unfolding lt by auto
      have "\<forall>c \<in> set (addrs r). h' c = h c"
        using Bin.prems(7) zr in_l lr unfolding lt by auto
      with R have "repr h' (right (h b)) (Some b) r" by (rule repr_frame)
      with IH True ne ab kb pb hb lc show ?thesis by simp
    qed
  next
    case False
    show ?thesis
    proof (cases r)
      case Tip
      with False ne have lt: "last (trail k (Bin l b kb r)) = b" by simp
      have hb: "h' b = (h b)\<lparr>right := Some z\<rparr>"
        using Bin.prems(6) False kb unfolding lt by simp
      have hz: "h' z = \<lparr>key = k, left = None, right = None, parent = Some b\<rparr>"
        using Bin.prems(5) unfolding lt by simp
      have "\<forall>c \<in> set (addrs l). h' c = h c"
        using Bin.prems(7) bl zl unfolding lt by auto
      with L have "repr h' (left (h b)) (Some b) l" by (rule repr_frame)
      with Tip False ne ab kb pb hb hz show ?thesis by simp
    next
      case (Bin rl c kc rr)
      with False ne have lt: "last (trail k (Bin l b kb r)) = last (trail k r)"
        by simp
      have in_r: "last (trail k r) \<in> set (addrs r)"
        using Bin by (intro last_trail) simp
      from R Bin have rc: "right (h b) = Some c" by simp
      have fr: "find_node k r = None" using Bin.prems(3) False ne by simp
      have IH: "repr h' (Some c) (Some b) (ins z k r)"
        using Bin.IH(2) [of c "Some b"] R rc dr fr zr Bin.prems(5,6,7) unfolding lt
        by simp
      have nb: "b \<noteq> last (trail k r)" using in_r br by auto
      have hb: "h' b = h b" using Bin.prems(7) zb nb unfolding lt by auto
      have "\<forall>c \<in> set (addrs l). h' c = h c"
        using Bin.prems(7) zl in_r lr unfolding lt by auto
      with L have "repr h' (left (h b)) (Some b) l" by (rule repr_frame)
      with IH False ne ab kb pb hb rc show ?thesis by simp
    qed
  qed
qed

lemma insert_dup:
  assumes "repr (heap s) (root s) None t" and "ordered t" and "k \<in> set (keys t)"
  shows "\<exists>x. insert_bst s k = Some ((None, Some x), s) \<and> find_node k t = Some x"
proof -
  from find_node_Some [OF assms(2,3)] obtain x where x: "find_node k t = Some x" by auto
  from insert_loop_repr [OF assms(1), of k None] x
  have "insert_loop (heap s) k (root s) None = Some (Inl x)" by simp
  then show ?thesis using x by (simp add: insert_bst_def)
qed

lemma insert_new:
  assumes "well_formed s t" and "k \<notin> set (keys t)"
  shows "\<exists>y s'. insert_bst s k = Some ((Some (fresh s), y), s') \<and>
           well_formed s' (ins (fresh s) k t) \<and> fresh s' = Suc (fresh s)"
proof -
  from assms(1) have R: "repr (heap s) (root s) None t" and O: "ordered t"
    and F: "\<forall>a \<in> set (addrs t). a < fresh s" by (auto simp: well_formed_def)
  from assms(2) have fn: "find_node k t = None" by (rule find_node_None)
  have zt: "fresh s \<notin> set (addrs t)" using F by auto
  have O': "ordered (ins (fresh s) k t)" using O by (rule ordered_ins)
  have F': "\<forall>a \<in> set (addrs (ins (fresh s) k t)). a < Suc (fresh s)"
    using F by (auto simp: addrs_ins [OF fn] less_Suc_eq)
  show ?thesis
  proof (cases t)
    case Tip
    with R have "root s = None" by simp
    then have "insert_loop (heap s) k (root s) None = Some (Inr None)"
      by (simp add: insert_loop.simps)
    then show ?thesis using Tip
      by (simp add: insert_bst_def well_formed_def Let_def)
  next
    case (Bin l a ka r)
    define b where "b = last (trail k t)"
    from R Bin have ra: "root s = Some a" by simp
    have bt: "b \<in> set (addrs t)" unfolding b_def using Bin by (intro last_trail) simp
    then have bz: "b \<noteq> fresh s" using zt by auto
    have loop: "insert_loop (heap s) k (root s) None = Some (Inr (Some b))"
      using insert_loop_repr [OF R, of k None] fn Bin by (simp add: b_def)
    define h' where "h' = heap (snd (the (insert_bst s k)))"
    have res: "insert_bst s k = Some ((Some (fresh s), Some b), snd (the (insert_bst s k)))"
      using loop by (simp add: insert_bst_def Let_def)
    have h1: "h' (fresh s) = \<lparr>key = k, left = None, right = None, parent = Some b\<rparr>"
      using loop bz by (simp add: h'_def insert_bst_def Let_def set_left_def set_right_def)
    have h2: "h' b = (if k < key (heap s b) then (heap s b)\<lparr>left := Some (fresh s)\<rparr>
                      else (heap s b)\<lparr>right := Some (fresh s)\<rparr>)"
      using loop bz by (simp add: h'_def insert_bst_def Let_def set_left_def set_right_def)
    have h3: "\<forall>c. c \<noteq> fresh s \<and> c \<noteq> b \<longrightarrow> h' c = heap s c"
      using loop bz by (simp add: h'_def insert_bst_def Let_def set_left_def set_right_def)
    have rt: "root (snd (the (insert_bst s k))) = Some a"
      using loop ra by (simp add: insert_bst_def Let_def set_left_def set_right_def)
    have fr: "fresh (snd (the (insert_bst s k))) = Suc (fresh s)"
      using loop by (simp add: insert_bst_def Let_def set_left_def set_right_def)
    have "repr h' (Some a) None (ins (fresh s) k t)"
      using ins_repr [of "heap s" a None t k "fresh s" h'] R ra
        repr_distinct_addrs [OF R O] fn zt h1 h2 h3
      by (simp add: b_def)
    then have "well_formed (snd (the (insert_bst s k))) (ins (fresh s) k t)"
      using O' F' rt fr by (simp add: well_formed_def h'_def)
    with res fr show ?thesis by metis
  qed
qed

subsection \<open>Removal on shapes\<close>

lemma split_min_keys:
  "t \<noteq> Tip \<Longrightarrow> keys t = snd (fst (split_min t)) # keys (snd (split_min t))"
  by (induction t) auto

lemma split_min_addrs:
  "t \<noteq> Tip \<Longrightarrow> addrs t = fst (fst (split_min t)) # addrs (snd (split_min t))"
  by (induction t) auto

lemma split_min_ordered: "ordered t \<Longrightarrow> ordered (snd (split_min t))"
proof (induction t)
  case Tip
  show ?case by simp
next
  case (Bin l a k r)
  show ?case
  proof (cases "l = Tip")
    case True
    with Bin show ?thesis by simp
  next
    case False
    from split_min_keys [OF False]
    have "set (keys (snd (split_min l))) \<subseteq> set (keys l)" by auto
    with Bin False show ?thesis by auto
  qed
qed

lemma del_root_keys: "keys (del_root (Bin l a k r)) = keys l @ keys r"
  using split_min_keys [of r] by simp

lemma del_root_addrs: "addrs (del_root (Bin l a k r)) = addrs l @ addrs r"
  using split_min_addrs [of r] by simp

lemma del_root_ordered:
  assumes "ordered (Bin l a k r)"
  shows "ordered (del_root (Bin l a k r))"
proof (cases "l = Tip \<or> r = Tip")
  case True
  with assms show ?thesis by auto
next
  case False
  then have r: "r \<noteq> Tip" and l: "l \<noteq> Tip" by auto
  let ?m = "snd (fst (split_min r))"
  from split_min_keys [OF r] have ks: "keys r = ?m # keys (snd (split_min r))" .
  from assms have "sorted_wrt (<) (keys r)" by (simp add: ordered_sorted)
  with ks have gt: "\<forall>x \<in> set (keys (snd (split_min r))). ?m < x"
    by (metis sorted_wrt.simps(2))
  from ks have "?m \<in> set (keys r)" by (metis list.set_intros(1))
  with assms have "k < ?m" by simp
  with assms have lt: "\<forall>x \<in> set (keys l). x < ?m" by (auto intro: less_trans)
  from assms have "ordered (snd (split_min r))" by (simp add: split_min_ordered)
  with assms l r gt lt show ?thesis by simp
qed

lemma del_keys: "ordered t \<Longrightarrow> set (keys (del k t)) = set (keys t) - {k}"
proof (induction t)
  case Tip
  show ?case by simp
next
  case (Bin l a ka r)
  show ?case
  proof (cases "k = ka")
    case True
    have "keys (del k (Bin l a ka r)) = keys l @ keys r"
      using True del_root_keys [of l a ka r] by simp
    with Bin.prems True show ?thesis by auto
  next
    case False
    with Bin show ?thesis by auto
  qed
qed

lemma del_ordered: "ordered t \<Longrightarrow> ordered (del k t)"
proof (induction t)
  case Tip
  show ?case by simp
next
  case (Bin l a ka r)
  show ?case
  proof (cases "k = ka")
    case True
    with Bin.prems del_root_ordered [of l a ka r] show ?thesis by simp
  next
    case False
    with Bin show ?thesis by (auto simp: del_keys)
  qed
qed

lemma del_addrs: "set (addrs (del k t)) \<subseteq> set (addrs t)"
proof (induction t)
  case Tip
  show ?case by simp
next
  case (Bin l a ka r)
  show ?case
  proof (cases "k = ka")
    case True
    then show ?thesis using del_root_addrs [of l a ka r] by auto
  next
    case False
    with Bin show ?thesis by auto
  qed
qed

subsection \<open>Cutting a subtree out and putting one in\<close>

lemma top_addrs: "apex t = Some a \<Longrightarrow> a \<in> set (addrs t)"
  by (cases t) auto

lemma hole_absent: "u \<notin> set (addrs t) \<Longrightarrow> hole h u v x p t = repr h x p t"
  by (induction t arbitrary: x p) auto

lemma subst_absent: "u \<notin> set (addrs t) \<Longrightarrow> subst u t' t = t"
  by (induction t) auto

lemma repr_hole: "repr h x p t \<Longrightarrow> hole h u (Some u) x p t"
  by (induction t arbitrary: x p) auto

lemma repr_parent:
  "repr h x p t \<Longrightarrow> distinct (addrs t) \<Longrightarrow> u \<in> set (addrs t) \<Longrightarrow>
   parent (h u) = slot_parent u p t"
  by (induction t arbitrary: x p) auto

lemma repr_below:
  "repr h x p t \<Longrightarrow> distinct (addrs t) \<Longrightarrow> u \<in> set (addrs t) \<Longrightarrow>
   repr h (Some u) (slot_parent u p t) (below u t)"
  by (induction t arbitrary: x p) auto

lemma below_addrs: "set (addrs (below u t)) \<subseteq> set (addrs t)"
  by (induction t) auto

lemma below_ordered: "ordered t \<Longrightarrow> ordered (below u t)"
  by (induction t) auto

lemma rest_addrs: "set (addrs (subst u Tip t)) \<subseteq> set (addrs t)"
  by (induction t) auto

lemma rest_below:
  "distinct (addrs t) \<Longrightarrow> set (addrs (subst u Tip t)) \<inter> set (addrs (below u t)) = {}"
proof (induction t)
  case Tip
  show ?case by simp
next
  case (Bin l a k r)
  have "set (addrs (subst u Tip l)) \<subseteq> set (addrs l)"
    and "set (addrs (subst u Tip r)) \<subseteq> set (addrs r)"
    and "set (addrs (below u l)) \<subseteq> set (addrs l)"
    and "set (addrs (below u r)) \<subseteq> set (addrs r)"
    by (rule rest_addrs below_addrs)+
  with Bin show ?case by (auto simp: subst_absent)
qed

lemma slot_parent_in:
  "u \<in> set (addrs t) \<Longrightarrow> distinct (addrs t) \<Longrightarrow> apex t \<noteq> Some u \<Longrightarrow>
   \<exists>q. slot_parent u p t = Some q \<and> q \<in> set (addrs (subst u Tip t))"
proof (induction t arbitrary: p)
  case Tip
  then show ?case by simp
next
  case (Bin l a k r)
  then have au: "a \<noteq> u" by simp
  show ?case
  proof (cases "u \<in> set (addrs l)")
    case True
    show ?thesis
    proof (cases "apex l = Some u")
      case True
      then obtain ll kl lr where "l = Bin ll u kl lr" by (cases l) auto
      with au show ?thesis by simp
    next
      case False
      from Bin.IH(1) [OF True _ False, of "Some a"] Bin.prems(2) au True
      show ?thesis by auto
    qed
  next
    case False
    with Bin.prems au have ur: "u \<in> set (addrs r)" by auto
    show ?thesis
    proof (cases "apex r = Some u")
      case True
      then obtain rl kr rr where "r = Bin rl u kr rr" by (cases r) auto
      with au False show ?thesis by simp
    next
      case nt: False
      from Bin.IH(2) [OF ur _ nt, of "Some a"] Bin.prems(2) au False
      show ?thesis by auto
    qed
  qed
qed

lemma hole_frame:
  "hole h u v x p t \<Longrightarrow> (\<forall>a \<in> set (addrs (subst u Tip t)). h' a = h a) \<Longrightarrow>
   hole h' u v x p t"
  by (induction t arbitrary: x p) (auto split: if_splits)

lemma hole_fill:
  "hole h u v x p t \<Longrightarrow> distinct (addrs t) \<Longrightarrow> u \<in> set (addrs t) \<Longrightarrow>
   repr h v (slot_parent u p t) t' \<Longrightarrow> repr h x p (subst u t' t)"
proof (induction t arbitrary: x p)
  case Tip
  then show ?case by simp
next
  case (Bin l a k r)
  show ?case
  proof (cases "a = u")
    case True
    with Bin.prems show ?thesis by simp
  next
    case False
    show ?thesis
    proof (cases "u \<in> set (addrs l)")
      case True
      with Bin.prems(2) have "u \<notin> set (addrs r)" by auto
      then have "subst u t' r = r" and "hole h u v (right (h a)) (Some a) r = repr h (right (h a)) (Some a) r"
        by (simp_all add: subst_absent hole_absent)
      moreover have "repr h (left (h a)) (Some a) (subst u t' l)"
        using Bin.IH(1) [of "left (h a)" "Some a"] Bin.prems False True by simp
      ultimately show ?thesis using Bin.prems(1) False by simp
    next
      case nl: False
      with Bin.prems(3) False have ur: "u \<in> set (addrs r)" by simp
      from nl have "subst u t' l = l" and "hole h u v (left (h a)) (Some a) l = repr h (left (h a)) (Some a) l"
        by (simp_all add: subst_absent hole_absent)
      moreover have "repr h (right (h a)) (Some a) (subst u t' r)"
        using Bin.IH(2) [of "right (h a)" "Some a"] Bin.prems False nl ur by simp
      ultimately show ?thesis using Bin.prems(1) False by simp
    qed
  qed
qed

lemma repr_reparent:
  assumes "repr h x p t" and "distinct (addrs t)"
    and "\<forall>a. x = Some a \<longrightarrow> h' a = (h a)\<lparr>parent := q\<rparr>"
    and "\<forall>a \<in> set (addrs t). x \<noteq> Some a \<longrightarrow> h' a = h a"
  shows "repr h' x q t"
proof (cases t)
  case Tip
  with assms show ?thesis by simp
next
  case (Bin l a k r)
  with assms(1) have xa: "x = Some a" and L: "repr h (left (h a)) (Some a) l"
    and R: "repr h (right (h a)) (Some a) r" by auto
  from assms(2) Bin have "a \<notin> set (addrs l)" "a \<notin> set (addrs r)" by auto
  with assms(4) Bin xa have "\<forall>c \<in> set (addrs l). h' c = h c" "\<forall>c \<in> set (addrs r). h' c = h c"
    by auto
  with L R have "repr h' (left (h a)) (Some a) l" "repr h' (right (h a)) (Some a) r"
    by (auto intro: repr_frame)
  with assms(1,3) Bin xa show ?thesis by simp
qed

lemma hole_slot_update:
  assumes "hole h u (Some u) x p t" and "distinct (addrs t)" and "u \<in> set (addrs t)"
    and "x \<noteq> Some u" and "slot_parent u p t = Some q"
    and "h' q = (if left (h q) = Some u then (h q)\<lparr>left := v\<rparr> else (h q)\<lparr>right := v\<rparr>)"
    and "\<forall>c \<in> set (addrs (subst u Tip t)). c \<noteq> q \<longrightarrow> h' c = h c"
  shows "hole h' u v x p t"
  using assms
proof (induction t arbitrary: x p)
  case Tip
  then show ?case by simp
next
  case (Bin l a k r)
  from Bin.prems(1,4) have au: "a \<noteq> u" by (auto split: if_splits)
  with Bin.prems(1) have xa: "x = Some a" and ka: "key (h a) = k" and pa: "parent (h a) = p"
    and L: "hole h u (Some u) (left (h a)) (Some a) l"
    and R: "hole h u (Some u) (right (h a)) (Some a) r" by auto
  from Bin.prems(2) have dl: "distinct (addrs l)" and dr: "distinct (addrs r)"
    and al: "a \<notin> set (addrs l)" and ar: "a \<notin> set (addrs r)"
    and lr: "set (addrs l) \<inter> set (addrs r) = {}" by auto
  have sl: "set (addrs (subst u Tip l)) \<subseteq> set (addrs l)"
    and sr: "set (addrs (subst u Tip r)) \<subseteq> set (addrs r)" by (rule rest_addrs)+
  show ?case
  proof (cases "u \<in> set (addrs l)")
    case True
    then have ur: "u \<notin> set (addrs r)" using lr by auto
    have sp: "slot_parent u (Some a) l = Some q" using Bin.prems(5) au True by simp
    have rest: "\<forall>c \<in> set (addrs l) \<union> set (addrs r). c \<in> set (addrs (subst u Tip l)) \<or> c \<in> set (addrs r) \<longrightarrow>
        c \<noteq> q \<longrightarrow> h' c = h c"
      using Bin.prems(7) au ur by (auto simp: subst_absent)
    show ?thesis
    proof (cases "apex l = Some u")
      case True
      then obtain ll kl lr' where l: "l = Bin ll u kl lr'" by (cases l) auto
      with sp have qa: "q = a" by simp
      from L l have lu: "left (h a) = Some u" by simp
      have h'a: "h' a = (h a)\<lparr>left := v\<rparr>" using Bin.prems(6) qa lu by simp
      have "\<forall>c \<in> set (addrs r). h' c = h c" using rest ar qa by auto
      moreover from R ur have "repr h (right (h a)) (Some a) r" by (simp add: hole_absent)
      ultimately have "repr h' (right (h a)) (Some a) r" by (auto intro: repr_frame)
      then have "hole h' u v (right (h a)) (Some a) r" using ur by (simp add: hole_absent)
      with au xa ka pa h'a l show ?thesis by simp
    next
      case False
      from slot_parent_in [OF True dl False, of "Some a"] sp
      have ql: "q \<in> set (addrs (subst u Tip l))" by simp
      with sl have qinl: "q \<in> set (addrs l)" by auto
      then have qa: "q \<noteq> a" and qr: "q \<notin> set (addrs r)" using al lr by auto
      from L False True have nl: "left (h a) \<noteq> Some u"
        by (cases l) (auto split: if_splits)
      have "\<forall>c \<in> set (addrs (subst u Tip l)). c \<noteq> q \<longrightarrow> h' c = h c"
        using Bin.prems(7) au by simp
      with Bin.IH(1) [OF L dl True nl sp Bin.prems(6)]
      have HL: "hole h' u v (left (h a)) (Some a) l" by simp
      have h'a: "h' a = h a" using Bin.prems(7) au qa by simp
      have "\<forall>c \<in> set (addrs r). h' c = h c" using rest qr by auto
      moreover from R ur have "repr h (right (h a)) (Some a) r" by (simp add: hole_absent)
      ultimately have "repr h' (right (h a)) (Some a) r" by (auto intro: repr_frame)
      then have "hole h' u v (right (h a)) (Some a) r" using ur by (simp add: hole_absent)
      with au xa ka pa h'a HL show ?thesis by simp
    qed
  next
    case False
    with Bin.prems(3) au have ur: "u \<in> set (addrs r)" by simp
    have sp: "slot_parent u (Some a) r = Some q" using Bin.prems(5) au False by simp
    from L False have Lr: "repr h (left (h a)) (Some a) l" by (simp add: hole_absent)
    then have "left (h a) = apex l" by (rule repr_top)
    with False have lnu: "left (h a) \<noteq> Some u" using top_addrs [of l u] by auto
    have rest: "\<forall>c. c \<in> set (addrs l) \<or> c \<in> set (addrs (subst u Tip r)) \<longrightarrow>
        c \<noteq> q \<longrightarrow> h' c = h c"
      using Bin.prems(7) au False by (auto simp: subst_absent)
    show ?thesis
    proof (cases "apex r = Some u")
      case True
      then obtain rl kr rr where r: "r = Bin rl u kr rr" by (cases r) auto
      with sp have qa: "q = a" by simp
      have h'a: "h' a = (h a)\<lparr>right := v\<rparr>" using Bin.prems(6) qa lnu by simp
      have "\<forall>c \<in> set (addrs l). h' c = h c" using rest al qa by auto
      with Lr have "repr h' (left (h a)) (Some a) l" by (auto intro: repr_frame)
      then have "hole h' u v (left (h a)) (Some a) l" using False by (simp add: hole_absent)
      with au xa ka pa h'a r show ?thesis by simp
    next
      case nt: False
      from slot_parent_in [OF ur dr nt, of "Some a"] sp
      have qr: "q \<in> set (addrs (subst u Tip r))" by simp
      with sr have qinr: "q \<in> set (addrs r)" by auto
      then have qa: "q \<noteq> a" and ql: "q \<notin> set (addrs l)" using ar lr by auto
      from R nt ur have nr: "right (h a) \<noteq> Some u"
        by (cases r) (auto split: if_splits)
      have "\<forall>c \<in> set (addrs (subst u Tip r)). c \<noteq> q \<longrightarrow> h' c = h c"
        using rest by simp
      with Bin.IH(2) [OF R dr ur nr sp Bin.prems(6)]
      have HR: "hole h' u v (right (h a)) (Some a) r" by simp
      have h'a: "h' a = h a" using Bin.prems(7) au qa by simp
      have "\<forall>c \<in> set (addrs l). h' c = h c" using rest ql by auto
      with Lr have "repr h' (left (h a)) (Some a) l" by (auto intro: repr_frame)
      then have "hole h' u v (left (h a)) (Some a) l" using False by (simp add: hole_absent)
      with au xa ka pa h'a HR show ?thesis by simp
    qed
  qed
qed

lemma transplant_Some:
  "parent (heap s u) = Some q \<Longrightarrow>
   transplant s u v =
     (let s1 = (if left (heap s q) = Some u then set_left s q v else set_right s q v)
      in case v of None \<Rightarrow> s1 | Some w \<Rightarrow> set_parent s1 w (Some q))"
  by (auto simp: transplant_def is_left_child_def set_left_def set_right_def Let_def
      split: option.splits)

lemma transplant_None:
  "parent (heap s u) = None \<Longrightarrow>
   transplant s u v =
     (case v of None \<Rightarrow> s\<lparr>root := v\<rparr> | Some w \<Rightarrow> set_parent (s\<lparr>root := v\<rparr>) w None)"
  by (auto simp: transplant_def Let_def split: option.splits)

lemma minimum_repr:
  "repr h x p t \<Longrightarrow> t \<noteq> Tip \<Longrightarrow> minimum h x = Some (Inr (fst (fst (split_min t))))"
proof (induction t arbitrary: x p)
  case Tip
  then show ?case by simp
next
  case (Bin l a k r)
  from Bin.prems have x: "x = Some a" and L: "repr h (left (h a)) (Some a) l" by auto
  show ?case
  proof (cases "l = Tip")
    case True
    with L have "left (h a) = None" by simp
    with True x show ?thesis by (subst minimum.simps) simp
  next
    case False
    with L obtain b where b: "left (h a) = Some b" by (cases l) auto
    from Bin.IH(1) [OF L False] b False x show ?thesis
      by (subst minimum.simps) simp
  qed
qed

lemma below_distinct: "distinct (addrs t) \<Longrightarrow> distinct (addrs (below u t))"
  by (induction t) auto

lemma below_Bin: "u \<in> set (addrs t) \<Longrightarrow> \<exists>l k r. below u t = Bin l u k r"
  by (induction t) auto

lemma split_min_below:
  assumes "t \<noteq> Tip" and "distinct (addrs t)"
  shows "\<exists>yr. below (fst (fst (split_min t))) t =
                 Bin Tip (fst (fst (split_min t))) (snd (fst (split_min t))) yr \<and>
              subst (fst (fst (split_min t))) yr t = snd (split_min t)"
  using assms
proof (induction t)
  case Tip
  then show ?case by simp
next
  case (Bin l a k r)
  show ?case
  proof (cases "l = Tip")
    case True
    then show ?thesis by simp
  next
    case False
    let ?y = "fst (fst (split_min l))"
    from split_min_addrs [OF False] have yl: "?y \<in> set (addrs l)"
      by (metis list.set_intros(1))
    with Bin.prems(2) have ya: "?y \<noteq> a" and yr: "?y \<notin> set (addrs r)" by auto
    from Bin.IH(1) [OF False] Bin.prems(2) obtain t' where
      "below ?y l = Bin Tip ?y (snd (fst (split_min l))) t'" and "subst ?y t' l = snd (split_min l)"
      by auto
    with False ya yl yr show ?thesis by (auto simp: subst_absent)
  qed
qed

lemma transplant_hole_sub:
  assumes H: "hole (heap s) u (Some u) x p t" and D: "distinct (addrs t)"
    and U: "u \<in> set (addrs t)" and X: "x \<noteq> Some u"
    and P: "parent (heap s u) = slot_parent u p t"
    and V: "\<forall>w. v = Some w \<longrightarrow> w \<notin> set (addrs (subst u Tip t))"
  shows "\<exists>q. slot_parent u p t = Some q \<and> q \<in> set (addrs (subst u Tip t)) \<and>
           hole (heap (transplant s u v)) u v x p t \<and>
           (\<forall>w. v = Some w \<longrightarrow> heap (transplant s u v) w = (heap s w)\<lparr>parent := Some q\<rparr>) \<and>
           (\<forall>c. c \<noteq> q \<longrightarrow> v \<noteq> Some c \<longrightarrow> heap (transplant s u v) c = heap s c) \<and>
           root (transplant s u v) = root s \<and> fresh (transplant s u v) = fresh s"
proof -
  from H X U have "apex t \<noteq> Some u" by (cases t) (auto split: if_splits)
  from slot_parent_in [OF U D this, of p] obtain q
    where q: "slot_parent u p t = Some q" and qr: "q \<in> set (addrs (subst u Tip t))" by auto
  with P have pq: "parent (heap s u) = Some q" by simp
  from V qr have vq: "v \<noteq> Some q" by auto
  let ?s' = "transplant s u v"
  note tr = transplant_Some [OF pq]
  have rt: "root ?s' = root s" and fr: "fresh ?s' = fresh s"
    by (auto simp: tr set_left_def set_right_def set_parent_def Let_def split: option.splits)
  have hq: "heap ?s' q = (if left (heap s q) = Some u then (heap s q)\<lparr>left := v\<rparr>
                          else (heap s q)\<lparr>right := v\<rparr>)"
    using vq by (auto simp: tr set_left_def set_right_def set_parent_def Let_def split: option.splits)
  have hw: "\<forall>w. v = Some w \<longrightarrow> heap ?s' w = (heap s w)\<lparr>parent := Some q\<rparr>"
    using vq by (auto simp: tr set_left_def set_right_def set_parent_def Let_def split: option.splits)
  have ho: "\<forall>c. c \<noteq> q \<longrightarrow> v \<noteq> Some c \<longrightarrow> heap ?s' c = heap s c"
    by (auto simp: tr set_left_def set_right_def set_parent_def Let_def split: option.splits)
  have "\<forall>c \<in> set (addrs (subst u Tip t)). c \<noteq> q \<longrightarrow> heap ?s' c = heap s c"
    using ho V by auto
  from hole_slot_update [OF H D U X q hq this]
  have "hole (heap ?s') u v x p t" .
  with rt fr hw ho q qr show ?thesis by auto
qed

subsection \<open>transplant\<close>

lemma transplant_hole:
  assumes H: "hole (heap s) u (Some u) (root s) None t" and D: "distinct (addrs t)"
    and U: "u \<in> set (addrs t)" and P: "parent (heap s u) = slot_parent u None t"
    and V: "\<forall>w. v = Some w \<longrightarrow> w \<notin> set (addrs (subst u Tip t))"
  shows "hole (heap (transplant s u v)) u v (root (transplant s u v)) None t \<and>
         (\<forall>w. v = Some w \<longrightarrow> heap (transplant s u v) w = (heap s w)\<lparr>parent := slot_parent u None t\<rparr>) \<and>
         (\<forall>c. c \<notin> set (addrs (subst u Tip t)) \<longrightarrow> v \<noteq> Some c \<longrightarrow> heap (transplant s u v) c = heap s c) \<and>
         fresh (transplant s u v) = fresh s"
proof (cases "apex t = Some u")
  case True
  then obtain l k r where t: "t = Bin l u k r" by (cases t) auto
  with P have "parent (heap s u) = None" by simp
  from transplant_None [OF this, of v] t show ?thesis
    by (auto simp: set_parent_def split: option.splits)
next
  case False
  with H U have xu: "root s \<noteq> Some u" by (cases t) (auto split: if_splits)
  from transplant_hole_sub [OF H D U xu P V] obtain q where
    "slot_parent u None t = Some q" and "q \<in> set (addrs (subst u Tip t))"
    and "hole (heap (transplant s u v)) u v (root s) None t"
    and "\<forall>w. v = Some w \<longrightarrow> heap (transplant s u v) w = (heap s w)\<lparr>parent := Some q\<rparr>"
    and "\<forall>c. c \<noteq> q \<longrightarrow> v \<noteq> Some c \<longrightarrow> heap (transplant s u v) c = heap s c"
    and "root (transplant s u v) = root s" and "fresh (transplant s u v) = fresh s"
    by blast
  then show ?thesis by auto
qed

lemma transplant_repr:
  assumes R: "repr (heap s) (root s) None t" and D: "distinct (addrs t)"
    and U: "u \<in> set (addrs t)"
    and RV: "repr (heap s) v pv tv" and DV: "distinct (addrs tv)"
    and I: "set (addrs tv) \<inter> set (addrs (subst u Tip t)) = {}"
  shows "repr (heap (transplant s u v)) (root (transplant s u v)) None (subst u tv t) \<and>
         fresh (transplant s u v) = fresh s"
proof -
  let ?s' = "transplant s u v"
  have vt: "v = apex tv" using RV by (rule repr_top)
  have V: "\<forall>w. v = Some w \<longrightarrow> w \<notin> set (addrs (subst u Tip t))"
    using vt I top_addrs [of tv] by auto
  from transplant_hole [OF repr_hole [OF R] D U repr_parent [OF R D U] V]
  have H: "hole (heap ?s') u v (root ?s') None t"
    and W: "\<forall>w. v = Some w \<longrightarrow> heap ?s' w = (heap s w)\<lparr>parent := slot_parent u None t\<rparr>"
    and O: "\<forall>c. c \<notin> set (addrs (subst u Tip t)) \<longrightarrow> v \<noteq> Some c \<longrightarrow> heap ?s' c = heap s c"
    and F: "fresh ?s' = fresh s" by auto
  have "\<forall>a \<in> set (addrs tv). v \<noteq> Some a \<longrightarrow> heap ?s' a = heap s a"
    using O I by auto
  from repr_reparent [OF RV DV W this]
  have "repr (heap ?s') v (slot_parent u None t) tv" .
  from hole_fill [OF H D U this] F show ?thesis by simp
qed

subsection \<open>delete\<close>

lemma detach_successor:
  fixes s :: BST
  assumes R: "repr (heap s) (Some b) (Some z) r" and D: "distinct (addrs r)"
    and Z: "z \<notin> set (addrs r)" and RZ: "right (heap s z) = Some b"
  defines "y \<equiv> fst (fst (split_min r))"
  defines "s1 \<equiv> (if parent (heap s y) \<noteq> Some z then
                   (let ta = transplant s y (right (heap s y));
                        tb = set_right ta y (right (heap ta z))
                    in case right (heap tb y) of
                         None \<Rightarrow> tb
                       | Some c \<Rightarrow> set_parent tb c (Some y))
                 else s)"
  shows "repr (heap s1) (right (heap s1 y)) (Some y) (snd (split_min r)) \<and>
         (\<forall>c. c \<notin> set (addrs r) \<longrightarrow> heap s1 c = heap s c) \<and>
         key (heap s1 y) = snd (fst (split_min r)) \<and>
         root s1 = root s \<and> fresh s1 = fresh s"
proof -
  from R obtain rl kb rr where r: "r = Bin rl b kb rr" by (cases r) auto
  show ?thesis
  proof (cases "rl = Tip")
    case True
    with r have yb: "y = b" by (simp add: y_def)
    with R r have "parent (heap s y) = Some z" by simp
    then have "s1 = s" by (simp add: s1_def)
    with R r True yb show ?thesis by simp
  next
    case False
    have NE: "r \<noteq> Tip" using r by simp
    let ?ky = "snd (fst (split_min r))"
    let ?r' = "snd (split_min r)"
    from split_min_addrs [OF NE] have ar: "addrs r = y # addrs ?r'" by (simp add: y_def)
    then have U: "y \<in> set (addrs r)" by simp
    from ar D have yr': "y \<notin> set (addrs ?r')" and Dr': "distinct (addrs ?r')" by auto
    from split_min_addrs [OF False] have "fst (fst (split_min rl)) \<in> set (addrs rl)"
      by (metis list.set_intros(1))
    with r False D have yb: "y \<noteq> b" by (auto simp: y_def)
    then have X: "Some b \<noteq> Some y" by simp
    from split_min_below [OF NE D] obtain yr where
      by': "below y r = Bin Tip y ?ky yr" and sb: "subst y yr r = ?r'" by (auto simp: y_def)
    note P = repr_parent [OF R D U]
    from repr_below [OF R D U] by' have
      ky: "key (heap s y) = ?ky" and RY: "repr (heap s) (right (heap s y)) (Some y) yr"
      by auto
    let ?v = "right (heap s y)"
    have vy: "?v = apex yr" using RY by (rule repr_top)
    from below_distinct [OF D, of y] by' have Dyr: "distinct (addrs yr)" and yyr: "y \<notin> set (addrs yr)"
      by auto
    from below_addrs [of y r] by' have yr_r: "set (addrs yr) \<subseteq> set (addrs r)" by auto
    from rest_below [OF D, of y] by' have
      disj: "set (addrs (subst y Tip r)) \<inter> set (addrs yr) = {}"
      and ynr: "y \<notin> set (addrs (subst y Tip r))" by auto
    have V: "\<forall>w. ?v = Some w \<longrightarrow> w \<notin> set (addrs (subst y Tip r))"
      using vy top_addrs [of yr] disj by auto
    let ?ta = "transplant s y ?v"
    from transplant_hole_sub [OF repr_hole [OF R] D U X P V] obtain q where
      q: "slot_parent y (Some z) r = Some q" and qr: "q \<in> set (addrs (subst y Tip r))"
      and H: "hole (heap ?ta) y ?v (Some b) (Some z) r"
      and W: "\<forall>w. ?v = Some w \<longrightarrow> heap ?ta w = (heap s w)\<lparr>parent := Some q\<rparr>"
      and O: "\<forall>c. c \<noteq> q \<longrightarrow> ?v \<noteq> Some c \<longrightarrow> heap ?ta c = heap s c"
      and rt: "root ?ta = root s" and fr: "fresh ?ta = fresh s" by blast
    from qr rest_addrs [of y r] have qin: "q \<in> set (addrs r)" by auto
    with Z have qz: "q \<noteq> z" by auto
    from P q qz have pne: "parent (heap s y) \<noteq> Some z" by simp
    have vin: "\<forall>w. ?v = Some w \<longrightarrow> w \<in> set (addrs r)"
      using vy top_addrs [of yr] yr_r by auto
    have "\<forall>a \<in> set (addrs yr). ?v \<noteq> Some a \<longrightarrow> heap ?ta a = heap s a"
      using O qr disj by auto
    from repr_reparent [OF RY Dyr W this] q
    have "repr (heap ?ta) ?v (slot_parent y (Some z) r) yr" by simp
    from hole_fill [OF H D U this] sb
    have Ra: "repr (heap ?ta) (Some b) (Some z) ?r'" by simp
    have taz: "heap ?ta z = heap s z" using O qz vin Z by auto
    have "y \<noteq> q" using qr ynr by auto
    moreover have "?v \<noteq> Some y" using vin vy top_addrs [of yr y] yyr by auto
    ultimately have tay: "heap ?ta y = heap s y" using O by blast
    have s1: "s1 = set_parent (set_right ?ta y (Some b)) b (Some y)"
      using pne taz RZ by (simp add: s1_def Let_def set_right_def)
    have h1y: "heap s1 y = (heap s y)\<lparr>right := Some b\<rparr>"
      using yb tay by (simp add: s1 set_parent_def set_right_def)
    have h1b: "heap s1 b = (heap ?ta b)\<lparr>parent := Some y\<rparr>"
      using yb by (simp add: s1 set_parent_def set_right_def)
    have h1o: "\<forall>c. c \<noteq> y \<longrightarrow> c \<noteq> b \<longrightarrow> heap s1 c = heap ?ta c"
      by (simp add: s1 set_parent_def set_right_def)
    have "\<forall>a. Some b = Some a \<longrightarrow> heap s1 a = (heap ?ta a)\<lparr>parent := Some y\<rparr>"
      using h1b by simp
    moreover have "\<forall>a \<in> set (addrs ?r'). Some b \<noteq> Some a \<longrightarrow> heap s1 a = heap ?ta a"
      using h1o yr' by auto
    ultimately have "repr (heap s1) (Some b) (Some y) ?r'"
      using repr_reparent [OF Ra Dr'] by blast
    then have c1: "repr (heap s1) (right (heap s1 y)) (Some y) ?r'" using h1y by simp
    have br: "b \<in> set (addrs r)" using r by simp
    have c2: "\<forall>c. c \<notin> set (addrs r) \<longrightarrow> heap s1 c = heap s c"
      using h1o O U br qin vin by (metis)
    have c3: "key (heap s1 y) = ?ky" using h1y ky by simp
    have c4: "root s1 = root s" "fresh s1 = fresh s"
      using rt fr by (simp_all add: s1 set_parent_def set_right_def)
    from c1 c2 c3 c4 show ?thesis by simp
  qed
qed

lemma splice_repr:
  assumes R: "repr (heap s) (root s) None t" and D: "distinct (addrs t)"
    and U: "z \<in> set (addrs t)"
  shows "\<exists>s'. splice s z = Some (Inr s') \<and>
           repr (heap s') (root s') None (subst z (del_root (below z t)) t) \<and>
           fresh s' = fresh s"
proof -
  from below_Bin [OF U] obtain l k r where bz: "below z t = Bin l z k r" by auto
  let ?pz = "slot_parent z None t"
  from repr_below [OF R D U] bz have
    L: "repr (heap s) (left (heap s z)) (Some z) l"
    and Rr: "repr (heap s) (right (heap s z)) (Some z) r" by auto
  from below_distinct [OF D, of z] bz have Dl: "distinct (addrs l)" and Dr: "distinct (addrs r)"
    and zl: "z \<notin> set (addrs l)" and zr: "z \<notin> set (addrs r)"
    and lr: "set (addrs l) \<inter> set (addrs r) = {}" by auto
  from rest_below [OF D, of z] bz have
    il: "set (addrs l) \<inter> set (addrs (subst z Tip t)) = {}"
    and ir: "set (addrs r) \<inter> set (addrs (subst z Tip t)) = {}"
    and zn: "z \<notin> set (addrs (subst z Tip t))" by auto
  show ?thesis
  proof (cases "l = Tip")
    case True
    with L have lz: "left (heap s z) = None" by simp
    from transplant_repr [OF R D U Rr Dr ir] True bz lz show ?thesis
      by (simp add: splice_def)
  next
    case lne: False
    with L obtain la where lz: "left (heap s z) = Some la" by (cases l) auto
    show ?thesis
    proof (cases "r = Tip")
      case True
      with Rr have rz: "right (heap s z) = None" by simp
      from transplant_repr [OF R D U L Dl il] True lne bz lz rz show ?thesis
        by (simp add: splice_def)
    next
      case rne: False
      with Rr obtain b where rz: "right (heap s z) = Some b" by (cases r) auto
      define y where "y = fst (fst (split_min r))"
      let ?ky = "snd (fst (split_min r))"
      let ?r' = "snd (split_min r)"
      from minimum_repr [OF Rr rne] have mn: "minimum (heap s) (right (heap s z)) = Some (Inr y)"
        by (simp add: y_def)
      define s1 where "s1 = (if parent (heap s y) \<noteq> Some z then
                   (let ta = transplant s y (right (heap s y));
                        tb = set_right ta y (right (heap ta z))
                    in case right (heap tb y) of
                         None \<Rightarrow> tb
                       | Some c \<Rightarrow> set_parent tb c (Some y))
                 else s)"
      define s2 where "s2 = transplant s1 z (Some y)"
      define s3 where "s3 = set_left s2 y (left (heap s2 z))"
      define s4 where "s4 = (case left (heap s3 y) of None \<Rightarrow> s3 | Some c \<Rightarrow> set_parent s3 c (Some y))"
      from mn rz have mn': "minimum (heap s) (Some b) = Some (Inr y)" by simp
      have sp: "splice s z = Some (Inr s4)"
        unfolding s4_def s3_def s2_def s1_def splice_def
        by (simp only: lz rz mn' option.case sum.case Let_def)
      from Rr rz have Rb: "repr (heap s) (Some b) (Some z) r" by simp
      from detach_successor [OF Rb Dr zr rz] have
        P1: "repr (heap s1) (right (heap s1 y)) (Some y) ?r'"
        and P2: "\<forall>c. c \<notin> set (addrs r) \<longrightarrow> heap s1 c = heap s c"
        and P3: "key (heap s1 y) = ?ky"
        and P4: "root s1 = root s" "fresh s1 = fresh s"
        unfolding y_def s1_def by blast+
      from split_min_addrs [OF rne] have ar: "addrs r = y # addrs ?r'" by (simp add: y_def)
      then have yr: "y \<in> set (addrs r)" and yr': "y \<notin> set (addrs ?r')"
        and r'r: "set (addrs ?r') \<subseteq> set (addrs r)" using Dr by auto
      from yr zr lr have yz: "y \<noteq> z" and yl: "y \<notin> set (addrs l)" by auto
      from yr ir have yn: "y \<notin> set (addrs (subst z Tip t))" by auto
      from L lz have lal: "la \<in> set (addrs l)" by (cases l) auto
      with zl lr il have laz: "la \<noteq> z" and lar: "la \<notin> set (addrs r)"
        and lan: "la \<notin> set (addrs (subst z Tip t))" by auto
      from lal yl have lay: "la \<noteq> y" by auto
      have "\<forall>a \<in> set (addrs (subst z Tip t)). heap s1 a = heap s a"
        using P2 ir by auto
      from hole_frame [OF repr_hole [OF R] this] P4
      have H1: "hole (heap s1) z (Some z) (root s1) None t" by simp
      have s1z: "heap s1 z = heap s z" using P2 zr by simp
      have Pz: "parent (heap s1 z) = ?pz" using repr_parent [OF R D U] s1z by simp
      have V: "\<forall>w. Some y = Some w \<longrightarrow> w \<notin> set (addrs (subst z Tip t))" using yn by simp
      from transplant_hole [OF H1 D U Pz V] have
        H2: "hole (heap s2) z (Some y) (root s2) None t"
        and W2: "heap s2 y = (heap s1 y)\<lparr>parent := ?pz\<rparr>"
        and O2: "\<forall>c. c \<notin> set (addrs (subst z Tip t)) \<longrightarrow> c \<noteq> y \<longrightarrow> heap s2 c = heap s1 c"
        and F2: "fresh s2 = fresh s1" unfolding s2_def by auto
      have s2z: "heap s2 z = heap s z" using O2 zn yz s1z by auto
      have s3: "s3 = set_left s2 y (Some la)" using s2z lz by (simp add: s3_def)
      have s4: "s4 = set_parent s3 la (Some y)" by (simp add: s4_def s3 set_left_def)
      have h4y: "heap s4 y = (heap s1 y)\<lparr>parent := ?pz, left := Some la\<rparr>"
        using lay W2 by (simp add: s4 s3 set_left_def set_parent_def)
      have s2la: "heap s2 la = heap s la" using O2 lan lay P2 lar by auto
      have h4la: "heap s4 la = (heap s la)\<lparr>parent := Some y\<rparr>"
        using lay s2la by (simp add: s4 s3 set_left_def set_parent_def)
      have h4o: "\<forall>c. c \<noteq> y \<longrightarrow> c \<noteq> la \<longrightarrow> heap s4 c = heap s2 c"
        by (simp add: s4 s3 set_left_def set_parent_def)
      have rt4: "root s4 = root s2" and fr4: "fresh s4 = fresh s2"
        by (simp_all add: s4 s3 set_left_def set_parent_def)
      have "\<forall>a \<in> set (addrs (subst z Tip t)). heap s4 a = heap s2 a"
        using h4o yn lan by auto
      from hole_frame [OF H2 this] rt4
      have H4: "hole (heap s4) z (Some y) (root s4) None t" by simp
      from L lz have Lla: "repr (heap s) (Some la) (Some z) l" by simp
      have "\<forall>a. Some la = Some a \<longrightarrow> heap s4 a = (heap s a)\<lparr>parent := Some y\<rparr>"
        using h4la by simp
      moreover have "\<forall>a \<in> set (addrs l). Some la \<noteq> Some a \<longrightarrow> heap s4 a = heap s a"
      proof (intro ballI impI)
        fix a assume a: "a \<in> set (addrs l)" and "Some la \<noteq> Some a"
        then have "a \<noteq> la" by simp
        moreover from a yl have "a \<noteq> y" by auto
        moreover from a il have "a \<notin> set (addrs (subst z Tip t))" by auto
        moreover from a lr have "a \<notin> set (addrs r)" by auto
        ultimately show "heap s4 a = heap s a" using h4o O2 P2 by simp
      qed
      ultimately have RL: "repr (heap s4) (Some la) (Some y) l"
        using repr_reparent [OF Lla Dl] by blast
      have "\<forall>a \<in> set (addrs ?r'). heap s4 a = heap s1 a"
      proof
        fix a assume a: "a \<in> set (addrs ?r')"
        with yr' have "a \<noteq> y" by auto
        moreover from a r'r lar have "a \<noteq> la" by auto
        moreover from a r'r ir have "a \<notin> set (addrs (subst z Tip t))" by auto
        ultimately show "heap s4 a = heap s1 a" using h4o O2 by simp
      qed
      from repr_frame [OF P1 this]
      have RR: "repr (heap s4) (right (heap s1 y)) (Some y) ?r'" .
      have "repr (heap s4) (Some y) ?pz (Bin l y ?ky ?r')"
        using RL RR h4y P3 by simp
      from hole_fill [OF H4 D U this] bz lne rne
      have "repr (heap s4) (root s4) None (subst z (del_root (below z t)) t)"
        by (simp add: y_def)
      with sp fr4 F2 P4 show ?thesis by simp
    qed
  qed
qed

lemma find_node_in: "find_node k t = Some z \<Longrightarrow> z \<in> set (addrs t)"
  by (induction t) (auto split: if_splits)

lemma del_subst:
  "find_node k t = Some z \<Longrightarrow> distinct (addrs t) \<Longrightarrow>
   del k t = subst z (del_root (below z t)) t"
proof (induction t)
  case Tip
  then show ?case by simp
next
  case (Bin l a ka r)
  show ?case
  proof (cases "k = ka")
    case True
    with Bin.prems show ?thesis by simp
  next
    case False
    show ?thesis
    proof (cases "k < ka")
      case True
      with Bin.prems False have f: "find_node k l = Some z" by simp
      then have zl: "z \<in> set (addrs l)" by (rule find_node_in)
      with Bin.prems(2) have "z \<noteq> a" "z \<notin> set (addrs r)" by auto
      with Bin.IH(1) [OF f] Bin.prems(2) True False zl show ?thesis
        by (simp add: subst_absent)
    next
      case nlt: False
      with Bin.prems False have f: "find_node k r = Some z" by simp
      then have zr: "z \<in> set (addrs r)" by (rule find_node_in)
      with Bin.prems(2) have "z \<noteq> a" "z \<notin> set (addrs l)" by auto
      with Bin.IH(2) [OF f] Bin.prems(2) nlt False zr show ?thesis
        by (simp add: subst_absent)
    qed
  qed
qed

lemma delete_absent:
  assumes "repr (heap s) (root s) None t" and "k \<notin> set (keys t)"
  shows "delete s k = Some (Inr (None, s))"
proof -
  from search_loop_repr [OF assms(1), of k "[]"] find_node_None [OF assms(2)]
  show ?thesis by (simp add: delete_def search_def)
qed

lemma delete_tree:
  assumes R: "repr (heap s) (root s) None t" and O: "ordered t" and K: "k \<in> set (keys t)"
  shows "\<exists>z s'. delete s k = Some (Inr (Some z, s')) \<and> find_node k t = Some z \<and>
           key (heap s z) = k \<and> repr (heap s') (root s') None (del k t) \<and>
           fresh s' = fresh s"
proof -
  note D = repr_distinct_addrs [OF R O]
  from find_node_Some [OF O K] obtain z where z: "find_node k t = Some z" by auto
  from find_node_key [OF R z] have kz: "key (heap s z) = k" and U: "z \<in> set (addrs t)" by auto
  from search_loop_repr [OF R, of k "[]"] z
  have se: "search s k = Some (trail k t, Some z)" by (simp add: search_def)
  from splice_repr [OF R D U] obtain s' where
    sp: "splice s z = Some (Inr s')"
    and R': "repr (heap s') (root s') None (subst z (del_root (below z t)) t)"
    and fr: "fresh s' = fresh s" by auto
  from R' del_subst [OF z D] have "repr (heap s') (root s') None (del k t)" by simp
  moreover have "delete s k = Some (Inr (Some z, s'))"
    using se sp by (simp add: delete_def)
  ultimately show ?thesis using z kz fr by blast
qed

lemma delete_present:
  assumes "well_formed s t" and "k \<in> set (keys t)"
  shows "\<exists>z s'. delete s k = Some (Inr (Some z, s')) \<and> find_node k t = Some z \<and>
           key (heap s z) = k \<and> well_formed s' (del k t) \<and> fresh s' = fresh s"
proof -
  from assms(1) have R: "repr (heap s) (root s) None t" and O: "ordered t"
    and F: "\<forall>a \<in> set (addrs t). a < fresh s" by (auto simp: well_formed_def)
  from delete_tree [OF R O assms(2)] obtain z s' where
    d: "delete s k = Some (Inr (Some z, s'))" and z: "find_node k t = Some z"
    and kz: "key (heap s z) = k" and R': "repr (heap s') (root s') None (del k t)"
    and fr: "fresh s' = fresh s" by blast
  have "ordered (del k t)" using O by (rule del_ordered)
  moreover have "\<forall>a \<in> set (addrs (del k t)). a < fresh s'"
    using F fr del_addrs [of k t] by auto
  ultimately have "well_formed s' (del k t)" using R' by (simp add: well_formed_def)
  with d z kz fr show ?thesis by blast
qed

lemma run_well_formed:
  "well_formed s t \<Longrightarrow>
   \<exists>s' t'. run s ops = Some (Inr s') \<and> well_formed s' t' \<and>
            set (keys t') = keys_after (set (keys t)) ops"
proof (induction ops arbitrary: s t)
  case Nil
  then show ?case by auto
next
  case (Cons c ops)
  show ?case
  proof (cases c)
    case (Insert k)
    show ?thesis
    proof (cases "k \<in> set (keys t)")
      case True
      from Cons.prems have "repr (heap s) (root s) None t" and "ordered t"
        by (simp_all add: well_formed_def)
      from insert_dup [OF this True] obtain x where
        "insert_bst s k = Some ((None, Some x), s)" by auto
      moreover have "set (keys t) \<union> {k} = set (keys t)" using True by auto
      ultimately show ?thesis using Cons.IH [OF Cons.prems] Insert by simp
    next
      case False
      from insert_new [OF Cons.prems False] obtain y s' where
        i: "insert_bst s k = Some ((Some (fresh s), y), s')"
        and w: "well_formed s' (ins (fresh s) k t)" by auto
      from Cons.IH [OF w] i Insert show ?thesis by (simp add: keys_ins)
    qed
  next
    case (Delete k)
    show ?thesis
    proof (cases "k \<in> set (keys t)")
      case True
      from delete_present [OF Cons.prems True] obtain z s' where
        d: "delete s k = Some (Inr (Some z, s'))" and w: "well_formed s' (del k t)" by auto
      from Cons.prems have "ordered t" by (simp add: well_formed_def)
      then have "set (keys (del k t)) = set (keys t) - {k}" by (rule del_keys)
      with Cons.IH [OF w] d Delete show ?thesis by simp
    next
      case False
      then have "set (keys t) - {k} = set (keys t)" by auto
      moreover from Cons.prems have "repr (heap s) (root s) None t"
        by (simp add: well_formed_def)
      note delete_absent [OF this False]
      ultimately show ?thesis using Cons.IH [OF Cons.prems] Delete by simp
    qed
  next
    case Clear
    have "well_formed (clear s) Tip" by (simp add: well_formed_def clear_def)
    from Cons.IH [OF this] Clear show ?thesis by simp
  qed
qed

lemma empty_well_formed: "root s = None \<Longrightarrow> well_formed s Tip"
  by (simp add: well_formed_def)

subsection \<open>The invariants on a well-formed state\<close>

lemma inorder_repr: "repr (heap s) (root s) None t \<Longrightarrow> inorder s = Some (keys t)"
  using inorder_dfs_repr [of "heap s" "root s" None t "[]"] by (simp add: inorder_def)

lemma inorder_well_formed: "well_formed s t \<Longrightarrow> inorder s = Some (keys t)"
  by (simp add: well_formed_def inorder_repr)

lemma nodes_repr: "repr (heap s) (root s) None t \<Longrightarrow> nodes s = Some (addrs t)"
  using nodes_dfs_repr [of "heap s" "root s" None t "[]"] by (simp add: nodes_def)

lemma repr_bst_at:
  assumes "repr h x p t" and "distinct (addrs t)" and "ordered t" and "n \<in> set (addrs t)"
  shows "bst_at h n"
proof -
  from below_Bin [OF assms(4)] obtain l k r where b: "below n t = Bin l n k r" by auto
  from repr_below [OF assms(1,2,4)] b have
    "key (h n) = k" "repr h (left (h n)) (Some n) l" "repr h (right (h n)) (Some n) r" by auto
  moreover from below_ordered [OF assms(3), of n] b have
    "\<forall>x \<in> set (keys l). x < k" "\<forall>x \<in> set (keys r). k < x" by auto
  ultimately show ?thesis
    by (simp add: bst_at_def subtree_keys_def inorder_dfs_repr [where res = "[]", simplified])
qed

lemma repr_bst_property:
  assumes R: "repr (heap s) (root s) None t" and O: "ordered t"
  shows "bst_property s"
proof -
  note D = repr_distinct_addrs [OF R O]
  have "distinct (map (\<lambda>n. key (heap s n)) (addrs t))"
    using ordered_distinct_keys [OF O] repr_keys [OF R] by simp
  moreover have "\<forall>n \<in> set (addrs t). bst_at (heap s) n"
    using repr_bst_at [OF R D O] by blast
  ultimately show ?thesis by (simp add: bst_property_def nodes_repr [OF R])
qed

lemma well_formed_bst_property: "well_formed s t \<Longrightarrow> bst_property s"
  using repr_bst_property [of s t] by (simp add: well_formed_def)

lemma repr_child_of_parent:
  "repr h x p t \<Longrightarrow> distinct (addrs t) \<Longrightarrow> n \<in> set (addrs t) \<Longrightarrow> x \<noteq> Some n \<Longrightarrow>
   \<exists>q. parent (h n) = Some q \<and> (left (h q) = Some n) \<noteq> (right (h q) = Some n)"
proof (induction t arbitrary: x p)
  case Tip
  then show ?case by simp
next
  case (Bin l a k r)
  from Bin.prems have an: "a \<noteq> n" and L: "repr h (left (h a)) (Some a) l"
    and R: "repr h (right (h a)) (Some a) r" by auto
  from Bin.prems(2) have dl: "distinct (addrs l)" and dr: "distinct (addrs r)"
    and lr: "set (addrs l) \<inter> set (addrs r) = {}" by auto
  from L R have la: "left (h a) = apex l" and ra: "right (h a) = apex r"
    by (auto dest: repr_top)
  show ?case
  proof (cases "n \<in> set (addrs l)")
    case True
    then have nr: "n \<notin> set (addrs r)" using lr by auto
    show ?thesis
    proof (cases "left (h a) = Some n")
      case True
      then obtain ll kl lr' where "l = Bin ll n kl lr'" using la by (cases l) auto
      with L have "parent (h n) = Some a" by simp
      moreover have "right (h a) \<noteq> Some n" using ra nr top_addrs [of r n] by auto
      ultimately show ?thesis using True by simp
    next
      case False
      from Bin.IH(1) [OF L dl True False] show ?thesis .
    qed
  next
    case False
    with Bin.prems an have nr: "n \<in> set (addrs r)" by auto
    show ?thesis
    proof (cases "right (h a) = Some n")
      case True
      then obtain rl kr rr where "r = Bin rl n kr rr" using ra by (cases r) auto
      with R have "parent (h n) = Some a" by simp
      moreover have "left (h a) \<noteq> Some n" using la False top_addrs [of l n] by auto
      ultimately show ?thesis using True by simp
    next
      case nt: False
      from Bin.IH(2) [OF R dr nr nt] show ?thesis .
    qed
  qed
qed

lemma repr_parent_of_children:
  assumes "repr h x p t" and "distinct (addrs t)" and "n \<in> set (addrs t)"
  shows "parent_of_children h n"
proof -
  from below_Bin [OF assms(3)] obtain l k r where b: "below n t = Bin l n k r" by auto
  from repr_below [OF assms] b have
    L: "repr h (left (h n)) (Some n) l" and R: "repr h (right (h n)) (Some n) r" by auto
  have "case left (h n) of None \<Rightarrow> True | Some c \<Rightarrow> parent (h c) = Some n"
    using L by (cases l) auto
  moreover have "case right (h n) of None \<Rightarrow> True | Some c \<Rightarrow> parent (h c) = Some n"
    using R by (cases r) auto
  ultimately show ?thesis by (simp add: parent_of_children_def)
qed

lemma repr_parent_links:
  assumes R: "repr (heap s) (root s) None t" and D: "distinct (addrs t)"
  shows "parent_links s"
proof -
  have "\<forall>n \<in> set (addrs t). child_of_parent (heap s) n"
  proof
    fix n assume n: "n \<in> set (addrs t)"
    show "child_of_parent (heap s) n"
    proof (cases "root s = Some n")
      case True
      with R have "parent (heap s n) = None" by (cases t) auto
      then show ?thesis by (simp add: child_of_parent_def)
    next
      case False
      from repr_child_of_parent [OF R D n False] show ?thesis
        by (auto simp: child_of_parent_def)
    qed
  qed
  moreover have "\<forall>n \<in> set (addrs t). parent_of_children (heap s) n"
    using repr_parent_of_children [OF R D] by blast
  moreover have "case root s of None \<Rightarrow> True | Some r \<Rightarrow> parent (heap s r) = None"
    using R by (cases t) auto
  ultimately show ?thesis by (simp add: parent_links_def nodes_repr [OF R])
qed

lemma well_formed_parent_links: "well_formed s t \<Longrightarrow> parent_links s"
  using repr_parent_links [of s t] repr_distinct_addrs [of "heap s" "root s" None t]
  by (simp add: well_formed_def)

lemma is_trail_repr: "repr h x p t \<Longrightarrow> is_trail h k x (trail k t) (find_node k t)"
proof (induction t arbitrary: x p)
  case Tip
  then show ?case by simp
next
  case (Bin l a ka r)
  from Bin.prems have L: "repr h (left (h a)) (Some a) l" and R: "repr h (right (h a)) (Some a) r"
    and x: "x = Some a" "key (h a) = ka" by auto
  from Bin.IH(1) [OF L] Bin.IH(2) [OF R] x show ?case by simp
qed

lemma find_node_last: "find_node k t = Some z \<Longrightarrow> last (trail k t) = z"
  by (induction t) (auto simp: trail_Nil split: if_splits)

lemma subst_distinct:
  "distinct (addrs t) \<Longrightarrow> distinct (addrs t') \<Longrightarrow>
   set (addrs t') \<inter> set (addrs (subst u Tip t)) = {} \<Longrightarrow> distinct (addrs (subst u t' t))"
proof (induction t)
  case Tip
  then show ?case by simp
next
  case (Bin l a k r)
  show ?case
  proof (cases "a = u")
    case True
    with Bin.prems show ?thesis by simp
  next
    case False
    have sub: "\<And>t. set (addrs (subst u t' t)) \<subseteq> set (addrs t') \<union> set (addrs (subst u Tip t))"
    proof -
      fix t :: shape show "set (addrs (subst u t' t)) \<subseteq> set (addrs t') \<union> set (addrs (subst u Tip t))"
        by (induction t) auto
    qed
    show ?thesis
    proof (cases "u \<in> set (addrs l)")
      case True
      with Bin.prems(1) have ur: "u \<notin> set (addrs r)" by auto
      have "distinct (addrs (subst u t' l))" using Bin.IH(1) Bin.prems False by auto
      moreover have "set (addrs (subst u t' l)) \<subseteq> set (addrs t') \<union> set (addrs l)"
        using sub [of l] rest_addrs [of u l] by auto
      ultimately show ?thesis using Bin.prems False ur
        by (auto simp: subst_absent)
    next
      case nl: False
      have "distinct (addrs (subst u t' r))" using Bin.IH(2) Bin.prems False by auto
      moreover have "set (addrs (subst u t' r)) \<subseteq> set (addrs t') \<union> set (addrs r)"
        using sub [of r] rest_addrs [of u r] by auto
      ultimately show ?thesis using Bin.prems False nl
        by (auto simp: subst_absent)
    qed
  qed
qed

lemma transplant_parent_links:
  assumes R: "repr (heap s) (root s) None t" and D: "distinct (addrs t)"
    and U: "u \<in> set (addrs t)"
    and V: "v = None \<or> (\<exists>w \<in> set (addrs (below u t)). v = Some w)"
  shows "parent_links (transplant s u v)"
proof -
  note RU = repr_below [OF R D U]
  note DU = below_distinct [OF D, of u]
  have "\<exists>tv pv. repr (heap s) v pv tv \<and> distinct (addrs tv) \<and>
          set (addrs tv) \<subseteq> set (addrs (below u t))"
  proof (cases v)
    case None
    then have "repr (heap s) v None Tip" by simp
    then show ?thesis by (metis addrs.simps(1) distinct.simps(1) empty_set empty_subsetI)
  next
    case (Some w)
    with V have w: "w \<in> set (addrs (below u t))" by auto
    from repr_below [OF RU DU w] Some
    have "repr (heap s) v (slot_parent w (slot_parent u None t) (below u t)) (below w (below u t))"
      by simp
    moreover have "distinct (addrs (below w (below u t)))" using DU by (rule below_distinct)
    moreover have "set (addrs (below w (below u t))) \<subseteq> set (addrs (below u t))"
      by (rule below_addrs)
    ultimately show ?thesis by blast
  qed
  then obtain tv pv where RV: "repr (heap s) v pv tv" and DV: "distinct (addrs tv)"
    and S: "set (addrs tv) \<subseteq> set (addrs (below u t))" by blast
  from S rest_below [OF D, of u] have I: "set (addrs tv) \<inter> set (addrs (subst u Tip t)) = {}"
    by auto
  from transplant_repr [OF R D U RV DV I]
  have "repr (heap (transplant s u v)) (root (transplant s u v)) None (subst u tv t)" by simp
  moreover have "distinct (addrs (subst u tv t))" using D DV I by (rule subst_distinct)
  ultimately show ?thesis by (rule repr_parent_links)
qed

lemma count_list_distinct: "distinct xs \<Longrightarrow> x \<in> set xs \<Longrightarrow> count_list xs x = 1"
  by (induction xs) auto

lemma strictly_sorted_unique:
  "sorted_wrt (<) xs \<Longrightarrow> sorted_wrt (<) ys \<Longrightarrow> set xs = set ys \<Longrightarrow> xs = (ys :: int list)"
  by (simp add: strict_sorted_iff sorted_distinct_set_unique)

subsection \<open>The in-order walk under the recursion limit\<close>

lemma height_nonneg: "0 \<le> height t"
  by (induction t) auto

lemma inorder_dfs_limited_repr:
  "repr h x p t \<Longrightarrow>
   inorder_dfs_limited b h x res =
     (if height t < int b then Inr (res @ keys t) else Inl RecursionError)"
proof (induction t arbitrary: x p b res)
  case Tip
  then show ?case by (cases b) auto
next
  case (Bin l a k r)
  from Bin.prems have L: "repr h (left (h a)) (Some a) l" and R: "repr h (right (h a)) (Some a) r"
    and x: "x = Some a" "key (h a) = k" by auto
  show ?case
  proof (cases b)
    case 0
    then show ?thesis using height_nonneg [of l] height_nonneg [of r] by simp
  next
    case (Suc b')
    with x Bin.IH(1) [OF L, of b'] Bin.IH(2) [OF R, of b'] show ?thesis by auto
  qed
qed

lemma ins_rspine:
  "rspine t \<Longrightarrow> \<forall>x \<in> set (keys t). x < k \<Longrightarrow>
   rspine (ins z k t) \<and> height (ins z k t) = height t + 1"
proof (induction t)
  case Tip
  show ?case by simp
next
  case (Bin l a ka r)
  then show ?case using height_nonneg [of r] by auto
qed

lemma run_ascending:
  "well_formed s t \<Longrightarrow> rspine t \<Longrightarrow> sorted_wrt (<) ks \<Longrightarrow>
   \<forall>x \<in> set (keys t). \<forall>k \<in> set ks. x < k \<Longrightarrow>
   \<exists>s' t'. run s (map Insert ks) = Some (Inr s') \<and> well_formed s' t' \<and>
            height t' = height t + int (length ks)"
proof (induction ks arbitrary: s t)
  case Nil
  then show ?case by auto
next
  case (Cons k ks)
  from Cons.prems(4) have lt: "\<forall>x \<in> set (keys t). x < k" by simp
  then have nk: "k \<notin> set (keys t)" by auto
  from insert_new [OF Cons.prems(1) nk] obtain y s1 where
    i: "insert_bst s k = Some ((Some (fresh s), y), s1)"
    and w: "well_formed s1 (ins (fresh s) k t)" by auto
  from ins_rspine [OF Cons.prems(2) lt, of "fresh s"] have
    sp: "rspine (ins (fresh s) k t)" and ht: "height (ins (fresh s) k t) = height t + 1" by auto
  have "\<forall>x \<in> set (keys (ins (fresh s) k t)). \<forall>k' \<in> set ks. x < k'"
    using Cons.prems(3,4) by (auto simp: keys_ins)
  moreover from Cons.prems(3) have "sorted_wrt (<) ks" by simp
  ultimately obtain s' t' where
    "run s1 (map Insert ks) = Some (Inr s')" and "well_formed s' t'"
    and "height t' = height (ins (fresh s) k t) + int (length ks)"
    using Cons.IH [OF w sp] by blast
  with i ht show ?case by auto
qed

subsection \<open>From the invariants back to a shape\<close>

text \<open>
  A state on which \<^verbatim>\<open>nodes()\<close> returns holds a finite shape below its root; with the
  parent-link property the shape is represented, with the BST property it is ordered.
\<close>

lemma nodes_dfs_links:
  assumes "nodes_dfs h x out = Some res"
  shows "\<exists>t. links h x t \<and> res = out @ addrs t"
proof (rule nodes_dfs.raw_induct [OF _ assms])
  fix f :: "store \<Rightarrow> ref option \<Rightarrow> ref list \<Rightarrow> ref list option"
    and h n out res
  assume IH: "\<And>h n out y. f h n out = Some y \<Longrightarrow> \<exists>t. links h n t \<and> y = out @ addrs t"
    and eq: "(case n of None \<Rightarrow> Some out
              | Some a \<Rightarrow> Option.bind (f h (left (h a)) out)
                           (\<lambda>out1. f h (right (h a)) (out1 @ [a]))) = Some res"
  show "\<exists>t. links h n t \<and> res = out @ addrs t"
  proof (cases n)
    case None
    with eq have "res = out" by simp
    with None show ?thesis by (intro exI [of _ Tip]) simp
  next
    case (Some a)
    with eq obtain out1 where
      l: "f h (left (h a)) out = Some out1"
      and r: "f h (right (h a)) (out1 @ [a]) = Some res"
      by (auto simp: bind_eq_Some_conv)
    from IH [OF l] obtain tl where tl: "links h (left (h a)) tl" "out1 = out @ addrs tl"
      by auto
    from IH [OF r] obtain tr where tr: "links h (right (h a)) tr" "res = (out1 @ [a]) @ addrs tr"
      by auto
    from Some tl tr show ?thesis
      by (intro exI [of _ "Bin tl a (key (h a)) tr"]) simp
  qed
qed

lemma links_repr:
  "links h x t \<Longrightarrow> (\<forall>n \<in> set (addrs t). parent_of_children h n) \<Longrightarrow>
   (\<forall>a. x = Some a \<longrightarrow> parent (h a) = p) \<Longrightarrow> repr h x p t"
proof (induction t arbitrary: x p)
  case Tip
  then show ?case by simp
next
  case (Bin l a k r)
  from Bin.prems(1) have x: "x = Some a" "key (h a) = k"
    and L: "links h (left (h a)) l" and R: "links h (right (h a)) r" by auto
  from Bin.prems(2) have pc: "parent_of_children h a"
    and pl: "\<forall>n \<in> set (addrs l). parent_of_children h n"
    and pr: "\<forall>n \<in> set (addrs r). parent_of_children h n" by auto
  from pc have cl: "\<forall>c. left (h a) = Some c \<longrightarrow> parent (h c) = Some a"
    and cr: "\<forall>c. right (h a) = Some c \<longrightarrow> parent (h c) = Some a"
    by (auto simp: parent_of_children_def split: option.splits)
  from Bin.IH(1) [OF L pl cl] Bin.IH(2) [OF R pr cr] x Bin.prems(3)
  show ?case by simp
qed

lemma repr_ordered:
  "repr h x p t \<Longrightarrow> (\<forall>n \<in> set (addrs t). bst_at h n) \<Longrightarrow> ordered t"
proof (induction t arbitrary: x p)
  case Tip
  show ?case by simp
next
  case (Bin l a k r)
  from Bin.prems(1) have ka: "key (h a) = k"
    and L: "repr h (left (h a)) (Some a) l" and R: "repr h (right (h a)) (Some a) r" by auto
  from Bin.prems(2) have "bst_at h a" by simp
  then have "(\<forall>x \<in> set (keys l). x < k) \<and> (\<forall>x \<in> set (keys r). k < x)"
    using ka inorder_dfs_repr [OF L, of "[]"] inorder_dfs_repr [OF R, of "[]"]
    by (simp add: bst_at_def subtree_keys_def)
  moreover have "ordered l" using Bin.IH(1) [OF L] Bin.prems(2) by simp
  moreover have "ordered r" using Bin.IH(2) [OF R] Bin.prems(2) by simp
  ultimately show ?case by simp
qed

lemma parent_links_shape:
  assumes "parent_links s"
  shows "\<exists>t. repr (heap s) (root s) None t \<and> nodes s = Some (addrs t)"
proof -
  from assms obtain ns where ns: "nodes s = Some ns"
    by (auto simp: parent_links_def split: option.splits)
  from nodes_dfs_links [of "heap s" "root s" "[]" ns] ns obtain t where
    t: "links (heap s) (root s) t" and a: "ns = addrs t" by (auto simp: nodes_def)
  from assms ns a have "\<forall>n \<in> set (addrs t). parent_of_children (heap s) n"
    and "\<forall>a. root s = Some a \<longrightarrow> parent (heap s a) = None"
    by (auto simp: parent_links_def)
  from links_repr [OF t this] ns a show ?thesis by auto
qed

lemma invariants_shape:
  assumes "bst_property s" and "parent_links s"
  shows "\<exists>t. repr (heap s) (root s) None t \<and> ordered t \<and> nodes s = Some (addrs t)"
proof -
  from parent_links_shape [OF assms(2)] obtain t where
    R: "repr (heap s) (root s) None t" and n: "nodes s = Some (addrs t)" by auto
  from assms(1) n have "\<forall>n \<in> set (addrs t). bst_at (heap s) n"
    by (simp add: bst_property_def)
  from repr_ordered [OF R this] R n show ?thesis by auto
qed

text \<open>
  The parent-link property alone keeps the nodes of the shape apart: a node is
  reached from the root along one chain of parents only, and it is the left or the
  right child of its parent, not both.
\<close>

lemma upchain_snoc:
  "upchain h n cs \<Longrightarrow> parent (h (last cs)) = Some a \<Longrightarrow> upchain h n (cs @ [a])"
  by (induction h n cs rule: upchain.induct) auto

lemma upchain_hd: "upchain h n cs \<Longrightarrow> \<exists>xs. cs = n # xs"
  by (induction h n cs rule: upchain.induct) auto

lemma upchain_unique:
  "upchain h n cs \<Longrightarrow> upchain h n cs' \<Longrightarrow> last cs = a \<Longrightarrow> last cs' = a \<Longrightarrow>
   a \<notin> set (butlast cs) \<Longrightarrow> a \<notin> set (butlast cs') \<Longrightarrow> cs = cs'"
proof (induction h n cs arbitrary: cs' rule: upchain.induct)
  case (1 h n)
  then show ?case by simp
next
  case (2 h n c)
  from upchain_hd [OF "2.prems"(2)] obtain xs where c': "cs' = n # xs" by auto
  with "2.prems" show ?case by (cases xs) auto
next
  case (3 h n c d cs)
  from upchain_hd [OF "3.prems"(2)] obtain xs where c': "cs' = n # xs" by auto
  show ?case
  proof (cases xs)
    case Nil
    with c' "3.prems" show ?thesis by auto
  next
    case (Cons d' ds)
    with c' "3.prems"(1,2) have cn: "c = n" and dd: "d' = d"
      and u: "upchain h d (d # cs)" and u': "upchain h d (d # ds)" by auto
    have "d # cs = d # ds"
    proof (rule "3.IH" [OF u u'])
      show "last (d # cs) = a" using "3.prems"(3) by simp
      show "last (d # ds) = a" using "3.prems"(4) c' Cons dd by simp
      show "a \<notin> set (butlast (d # cs))" using "3.prems"(5) by (auto split: if_splits)
      show "a \<notin> set (butlast (d # ds))" using "3.prems"(6) c' Cons dd
        by (auto split: if_splits)
    qed
    with c' Cons cn dd show ?thesis by simp
  qed
qed

lemma repr_upchain:
  "repr h x p t \<Longrightarrow> n \<in> set (addrs t) \<Longrightarrow>
   \<exists>cs. upchain h n cs \<and> Some (last cs) = x \<and> set cs \<subseteq> set (addrs t)"
proof (induction t arbitrary: x p)
  case Tip
  then show ?case by simp
next
  case (Bin l a k r)
  from Bin.prems(1) have x: "x = Some a"
    and L: "repr h (left (h a)) (Some a) l" and R: "repr h (right (h a)) (Some a) r" by auto
  consider "n = a" | "n \<in> set (addrs l)" | "n \<in> set (addrs r)" using Bin.prems(2) by auto
  then show ?case
  proof cases
    case 1
    with x show ?thesis by (intro exI [of _ "[a]"]) simp
  next
    case 2
    from Bin.IH(1) [OF L 2] obtain cs where
      u: "upchain h n cs" and e: "Some (last cs) = left (h a)" and s: "set cs \<subseteq> set (addrs l)"
      by auto
    from L e have "parent (h (last cs)) = Some a" by (cases l) auto
    from upchain_snoc [OF u this] x s show ?thesis
      by (intro exI [of _ "cs @ [a]"]) auto
  next
    case 3
    from Bin.IH(2) [OF R 3] obtain cs where
      u: "upchain h n cs" and e: "Some (last cs) = right (h a)" and s: "set cs \<subseteq> set (addrs r)"
      by auto
    from R e have "parent (h (last cs)) = Some a" by (cases r) auto
    from upchain_snoc [OF u this] x s show ?thesis
      by (intro exI [of _ "cs @ [a]"]) auto
  qed
qed

lemma repr_parent_inside:
  "repr h x p t \<Longrightarrow> n \<in> set (addrs t) \<Longrightarrow>
   (x = Some n \<and> parent (h n) = p) \<or> (\<exists>q \<in> set (addrs t). parent (h n) = Some q)"
proof (induction t arbitrary: x p)
  case Tip
  then show ?case by simp
next
  case (Bin l a k r)
  from Bin.prems(1) have x: "x = Some a" "parent (h a) = p"
    and L: "repr h (left (h a)) (Some a) l" and R: "repr h (right (h a)) (Some a) r" by auto
  consider "n = a" | "n \<in> set (addrs l)" | "n \<in> set (addrs r)" using Bin.prems(2) by auto
  then show ?case
  proof cases
    case 1
    with x show ?thesis by simp
  next
    case 2
    from Bin.IH(1) [OF L 2] show ?thesis by auto
  next
    case 3
    from Bin.IH(2) [OF R 3] show ?thesis by auto
  qed
qed

lemma repr_links_distinct:
  "repr h x p t \<Longrightarrow> (\<forall>q. p = Some q \<longrightarrow> q \<notin> set (addrs t)) \<Longrightarrow>
   (\<forall>n \<in> set (addrs t). child_of_parent h n) \<Longrightarrow> distinct (addrs t)"
proof (induction t arbitrary: x p)
  case Tip
  show ?case by simp
next
  case (Bin l a k r)
  from Bin.prems(1) have x: "x = Some a" and pa: "parent (h a) = p"
    and L: "repr h (left (h a)) (Some a) l" and R: "repr h (right (h a)) (Some a) r" by auto
  have al: "a \<notin> set (addrs l)"
  proof
    assume "a \<in> set (addrs l)"
    from repr_parent_inside [OF L this] pa Bin.prems(2) show False by auto
  qed
  have ar: "a \<notin> set (addrs r)"
  proof
    assume "a \<in> set (addrs r)"
    from repr_parent_inside [OF R this] pa Bin.prems(2) show False by auto
  qed
  have dl: "distinct (addrs l)" using Bin.IH(1) [OF L] al Bin.prems(3) by simp
  have dr: "distinct (addrs r)" using Bin.IH(2) [OF R] ar Bin.prems(3) by simp
  have "set (addrs l) \<inter> set (addrs r) = {}"
  proof (rule ccontr)
    assume "set (addrs l) \<inter> set (addrs r) \<noteq> {}"
    then obtain c where cl: "c \<in> set (addrs l)" and cr: "c \<in> set (addrs r)" by auto
    from repr_upchain [OF L cl] obtain cs where
      u: "upchain h c cs" and e: "Some (last cs) = left (h a)" and s: "set cs \<subseteq> set (addrs l)"
      by auto
    from repr_upchain [OF R cr] obtain cs' where
      u': "upchain h c cs'" and e': "Some (last cs') = right (h a)"
      and s': "set cs' \<subseteq> set (addrs r)" by auto
    from L e have pl: "parent (h (last cs)) = Some a" by (cases l) auto
    from R e' have pr: "parent (h (last cs')) = Some a" by (cases r) auto
    have "cs @ [a] = cs' @ [a]"
      using upchain_unique [OF upchain_snoc [OF u pl] upchain_snoc [OF u' pr], of a]
        s s' al ar by auto
    then have "cs = cs'" by simp
    with e e' have both: "left (h a) = Some (last cs)" "right (h a) = Some (last cs)" by simp_all
    from u s have "last cs \<in> set (addrs l)" by (cases cs rule: rev_cases) auto
    with Bin.prems(3) have "child_of_parent h (last cs)" by simp
    with pl both show False by (simp add: child_of_parent_def)
  qed
  with al ar dl dr show ?case by simp
qed

lemma parent_links_distinct:
  assumes "parent_links s" and "repr (heap s) (root s) None t" and "nodes s = Some (addrs t)"
  shows "distinct (addrs t)"
proof -
  from assms(1,3) have "\<forall>n \<in> set (addrs t). child_of_parent (heap s) n"
    by (simp add: parent_links_def)
  with repr_links_distinct [OF assms(2)] show ?thesis by simp
qed

lemma invariants_well_formed:
  assumes "bst_property s" and "parent_links s" and "allocated s"
  shows "\<exists>t. well_formed s t"
proof -
  from invariants_shape [OF assms(1,2)] obtain t where
    "repr (heap s) (root s) None t" and "ordered t" and "nodes s = Some (addrs t)" by auto
  with assms(3) have "well_formed s t" by (simp add: well_formed_def allocated_def)
  then show ?thesis ..
qed

subsection \<open>The concrete trees, evaluated\<close>

lemmas bst_eval = BST_init_def insert_bst_def insert_loop.simps descend_def
  set_left_def set_right_def set_parent_def inorder_def inorder_dfs.simps
  nodes_def nodes_dfs.simps depth_def depth_h.simps search_def search_loop.simps
  delete_def splice_def minimum.simps transplant_def is_left_child_def Let_def

lemma after_inserts_eq:
  "after_inserts =
     \<lparr>heap = (\<lambda>a. if a = 0 then \<lparr>key = 8, left = Some 1, right = Some 2, parent = None\<rparr>
                 else if a = 1 then \<lparr>key = 3, left = Some 3, right = Some 4, parent = Some 0\<rparr>
                 else if a = 2 then \<lparr>key = 10, left = None, right = Some 5, parent = Some 0\<rparr>
                 else if a = 3 then \<lparr>key = 1, left = None, right = None, parent = Some 1\<rparr>
                 else if a = 4 then \<lparr>key = 6, left = Some 6, right = Some 7, parent = Some 1\<rparr>
                 else if a = 5 then \<lparr>key = 14, left = Some 8, right = None, parent = Some 2\<rparr>
                 else if a = 6 then \<lparr>key = 4, left = None, right = None, parent = Some 4\<rparr>
                 else if a = 7 then \<lparr>key = 7, left = None, right = None, parent = Some 4\<rparr>
                 else if a = 8 then \<lparr>key = 13, left = None, right = None, parent = Some 5\<rparr>
                 else \<lparr>key = 0, left = None, right = None, parent = None\<rparr>),
      root = Some 0, fresh = 9\<rparr>"
  by (simp add: after_inserts_def scenario_inserts_def bst_eval fun_eq_iff)

lemma small_tree_eq:
  "small_tree =
     \<lparr>heap = (\<lambda>a. if a = 0 then \<lparr>key = 2, left = Some 1, right = Some 2, parent = None\<rparr>
                 else if a = 1 then \<lparr>key = 1, left = None, right = None, parent = Some 0\<rparr>
                 else if a = 2 then \<lparr>key = 3, left = None, right = None, parent = Some 0\<rparr>
                 else \<lparr>key = 0, left = None, right = None, parent = None\<rparr>),
      root = Some 0, fresh = 3\<rparr>"
  by (simp add: small_tree_def bst_eval fun_eq_iff)

lemma small_after_eval:
  "run BST_init small_ops = Some (Inr small_after) \<and>
   nodes small_after = Some [1, 2] \<and> inorder small_after = Some [1, 3]"
  by (simp add: small_after_def small_ops_def bst_eval)

lemma small_tree_invariants:
  "bst_property small_tree \<and> parent_links small_tree \<and> allocated small_tree \<and>
   nodes small_tree = Some [1, 0, 2] \<and> inorder small_tree = Some [1, 2, 3]"
  by (simp add: small_tree_eq bst_property_def parent_links_def allocated_def nodes_def
      nodes_dfs.simps bst_at_def subtree_keys_def inorder_def inorder_dfs.simps
      child_of_parent_def parent_of_children_def)

section \<open>The claims\<close>

text \<open>
  "A tree satisfying the invariants" is a state on which \<open>bst_property\<close> and
  \<open>parent_links\<close> hold: statements about what \<^verbatim>\<open>nodes()\<close> and the in-order walk return
  on the store. Such a state holds a shape below its root (\<open>invariants_shape\<close>), and
  every state that calls of \<^verbatim>\<open>insert\<close>, \<^verbatim>\<open>delete\<close> and \<^verbatim>\<open>clear\<close> reach from an empty
  tree is one (\<open>run_well_formed\<close>). The read-only methods \<^verbatim>\<open>search\<close>, \<^verbatim>\<open>minimum\<close>,
  \<^verbatim>\<open>inorder\<close>, \<^verbatim>\<open>nodes\<close> and \<^verbatim>\<open>depth\<close> contain no assignment to a node or to
  \<^verbatim>\<open>self.root\<close>; their models are functions of the state that return no new state.
\<close>

text \<open>
  C1. Starting from the empty tree, after every prefix of every sequence of calls the
  calls have returned and, for every node \<open>n\<close> that \<^verbatim>\<open>nodes()\<close> lists, every key found
  below \<open>n.left\<close> is smaller than \<open>n.key\<close>, every key found below \<open>n.right\<close> is
  larger, and no two nodes hold the same key.
\<close>

theorem bst_invariant_reachable:
  assumes "root s = None"
  shows "\<forall>n. \<exists>s'. run s (take n ops) = Some (Inr s') \<and> bst_property s'"
proof
  fix n
  from run_well_formed [OF empty_well_formed [OF assms], of "take n ops"]
  obtain s' t' where "run s (take n ops) = Some (Inr s')" and "well_formed s' t'" by auto
  then show "\<exists>s'. run s (take n ops) = Some (Inr s') \<and> bst_property s'"
    using well_formed_bst_property by blast
qed

text \<open>The four calls \<open>small_ops\<close> on the initial state.\<close>

theorem bst_invariant_reachable_witness:
  "root BST_init = None \<and> run BST_init (take 4 small_ops) = Some (Inr small_after) \<and>
   nodes small_after = Some [1, 2] \<and> bst_property small_after"
proof -
  have r: "root BST_init = None" by (simp add: BST_init_def)
  have t: "take 4 small_ops = small_ops" by (simp add: small_ops_def)
  from bst_invariant_reachable [OF r, of small_ops] obtain s' where
    "run BST_init (take 4 small_ops) = Some (Inr s')" and "bst_property s'" by blast
  with small_after_eval t have "bst_property small_after" by simp
  with small_after_eval r t show ?thesis by simp
qed

text \<open>
  C2. On a tree satisfying the BST and parent-link invariants whose in-order sequence
  holds \<open>k\<close>, \<^verbatim>\<open>delete(k)\<close> returns a node \<open>z\<close> of the tree whose key is \<open>k\<close>. If
  \<open>t\<close> is the shape of the tree before, the shape after is \<open>del k t\<close>: the three
  cases of the specification, with the leftmost node of the right subtree taken out
  of it and put in the place of the removed node when that has two children. Both
  invariants hold again, and the keys are the old ones without \<open>k\<close>.
\<close>

theorem delete_present_key:
  assumes B: "bst_property s" and P: "parent_links s"
    and I: "inorder s = Some ks" and K: "k \<in> set ks"
  shows "\<exists>t z s' ks'.
           repr (heap s) (root s) None t \<and> nodes s = Some (addrs t) \<and>
           delete s k = Some (Inr (Some z, s')) \<and> z \<in> set (addrs t) \<and>
           key (heap s z) = k \<and>
           repr (heap s') (root s') None (del k t) \<and>
           bst_property s' \<and> parent_links s' \<and>
           inorder s' = Some ks' \<and> set ks' = set ks - {k}"
proof -
  from invariants_shape [OF B P] obtain t where
    R: "repr (heap s) (root s) None t" and O: "ordered t"
    and N: "nodes s = Some (addrs t)" by auto
  from inorder_repr [OF R] I have ks: "ks = keys t" by simp
  with K have K': "k \<in> set (keys t)" by simp
  from delete_tree [OF R O K'] obtain z s' where
    d: "delete s k = Some (Inr (Some z, s'))" and f: "find_node k t = Some z"
    and kz: "key (heap s z) = k" and R': "repr (heap s') (root s') None (del k t)"
    by blast
  have O': "ordered (del k t)" using O by (rule del_ordered)
  note D' = repr_distinct_addrs [OF R' O']
  have "bst_property s'" using R' O' by (rule repr_bst_property)
  moreover have "parent_links s'" using R' D' by (rule repr_parent_links)
  moreover have "set (keys (del k t)) = set ks - {k}" using del_keys [OF O] ks by simp
  ultimately show ?thesis
    using R N d kz R' find_node_in [OF f] inorder_repr [OF R'] by blast
qed

text \<open>Removing the root key 2 of the three-node tree, which has two children.\<close>

theorem delete_present_key_witness:
  "bst_property small_tree \<and> parent_links small_tree \<and>
   inorder small_tree = Some [1, 2, 3] \<and>
   (\<exists>z s' ks'. delete small_tree 2 = Some (Inr (Some z, s')) \<and>
      key (heap small_tree z) = 2 \<and> bst_property s' \<and> parent_links s' \<and>
      inorder s' = Some ks' \<and> set ks' = {1, 3})"
proof -
  from small_tree_invariants have B: "bst_property small_tree" and P: "parent_links small_tree"
    and I: "inorder small_tree = Some [1, 2, 3]" by simp_all
  have K: "(2::int) \<in> set [1, 2, 3]" by simp
  have "set [1, 2, 3] - {2} = {1, 3 :: int}" by auto
  with delete_present_key [OF B P I K] B P I show ?thesis by auto
qed

text \<open>
  C3 (as amended). In every state reached from the empty tree whose depth \<open>d\<close> is
  below the number \<open>b\<close> of nested calls the interpreter still allows, \<^verbatim>\<open>inorder()\<close>
  returns the strictly ascending list of the keys inserted and not removed since; the
  visit order left subtree, node, right subtree is the definition of
  \<open>inorder_dfs_limited\<close>, which assigns to no node. On a deeper tree it raises
  \<^verbatim>\<open>RecursionError\<close>.
\<close>

theorem inorder_limited_reachable:
  assumes "root s = None"
  shows "\<exists>s' d ks. run s ops = Some (Inr s') \<and> depth s' = Some d \<and>
           sorted_wrt (<) ks \<and> set ks = keys_after {} ops \<and>
           ks = sorted_list_of_set (keys_after {} ops) \<and>
           inorder_limited b s' = (if d < int b then Inr ks else Inl RecursionError)"
proof -
  from run_well_formed [OF empty_well_formed [OF assms], of ops]
  obtain s' t' where r: "run s ops = Some (Inr s')" and w: "well_formed s' t'"
    and k: "set (keys t') = keys_after {} ops" by auto
  from w have R: "repr (heap s') (root s') None t'" and O: "ordered t'"
    by (simp_all add: well_formed_def)
  from O have srt: "sorted_wrt (<) (keys t')" by (rule ordered_sorted)
  then have "sorted_list_of_set (set (keys t')) = keys t'"
    by (simp add: strict_sorted_iff sorted_list_of_set.idem_if_sorted_distinct)
  with k have e: "keys t' = sorted_list_of_set (keys_after {} ops)" by simp
  have d: "depth s' = Some (height t')" using depth_h_repr [OF R] by (simp add: depth_def)
  have "inorder_limited b s' =
          (if height t' < int b then Inr (keys t') else Inl RecursionError)"
    using inorder_dfs_limited_repr [OF R, of b "[]"] by (simp add: inorder_limited_def)
  with r d srt k e show ?thesis by blast
qed

text \<open>
  After \<open>small_ops\<close> the keys 1 and 3 are left in a tree of depth 2: ten nested calls
  are enough, two are not.
\<close>

theorem inorder_limited_reachable_witness:
  "root BST_init = None \<and> run BST_init small_ops = Some (Inr small_after) \<and>
   depth small_after = Some 2 \<and> keys_after {} small_ops = {1, 3} \<and>
   inorder_limited 10 small_after = Inr [1, 3] \<and>
   inorder_limited 2 small_after = Inl RecursionError"
proof -
  have r: "root BST_init = None" by (simp add: BST_init_def)
  have k: "keys_after {} small_ops = {1, 3}" by (auto simp: small_ops_def)
  have d: "depth small_after = Some 2"
    by (simp add: small_after_def small_ops_def bst_eval)
  have l: "sorted_list_of_set {1, 3 :: int} = [1, 3]" by simp
  from inorder_limited_reachable [OF r, of small_ops 10] small_after_eval d k l
  have a: "inorder_limited 10 small_after = Inr [1, 3]" by auto
  from inorder_limited_reachable [OF r, of small_ops 2] small_after_eval d k l
  have b: "inorder_limited 2 small_after = Inl RecursionError" by auto
  from r small_after_eval d k a b show ?thesis by simp
qed

text \<open>
  The claim as it stands has \<^verbatim>\<open>inorder()\<close> return in every reachable state. Inserting
  1, 2, ..., 1000 in this order, which \<^verbatim>\<open>insert\<close> does in a loop, gives a tree of depth
  1000, and there \<^verbatim>\<open>inorder()\<close> raises even if all 1000 frames of the default limit
  were left for \<^verbatim>\<open>dfs\<close>.
\<close>

theorem inorder_deep_counterexample:
  "run BST_init deep_ops = Some (Inr deep_tree) \<and> depth deep_tree = Some 1000 \<and>
   inorder_limited 1000 deep_tree = Inl RecursionError"
proof -
  have w: "well_formed BST_init Tip" by (simp add: empty_well_formed BST_init_def)
  have "sorted_wrt (<) [1..1000::int]" by (simp add: strict_sorted_iff)
  from run_ascending [OF w _ this] obtain s' t' where
    r: "run BST_init (map Insert [1..1000]) = Some (Inr s')" and w': "well_formed s' t'"
    and h: "height t' = height Tip + int (length [1..1000::int])" by auto
  from r have e: "deep_tree = s'" by (simp add: deep_tree_def deep_ops_def)
  from w' have R: "repr (heap s') (root s') None t'" by (simp add: well_formed_def)
  from h have h': "height t' = 1000" by simp
  have "depth s' = Some 1000" using depth_h_repr [OF R] h' by (simp add: depth_def)
  moreover have "inorder_limited 1000 s' = Inl RecursionError"
    using inorder_dfs_limited_repr [OF R, of 1000 "[]"] h' by (simp add: inorder_limited_def)
  ultimately show ?thesis using r e by (simp add: deep_ops_def)
qed

text \<open>
  C4 (as amended). Inserting 8, 3, 10, 1, 6, 14, 4, 7, 13 gives the in-order sequence
  1, 3, 4, 6, 7, 8, 10, 13, 14 and depth 4. The node with key 3 has the children 1 and
  6; the minimum of its right subtree is the node with key 4. \<^verbatim>\<open>delete(3)\<close> returns the
  node of key 3 and leaves the in-order sequence 1, 4, 6, 7, 8, 10, 13, 14, with the node
  of key 4 as the left child of the root, over the left child 1 and the right child 6.
  \<^verbatim>\<open>search(13)\<close> then visits 8, 10, 14, 13 and finds the node of key 13.
\<close>

theorem scenario_trace:
  "run BST_init scenario_inserts = Some (Inr after_inserts) \<and>
   inorder after_inserts = Some [1, 3, 4, 6, 7, 8, 10, 13, 14] \<and>
   depth after_inserts = Some 4 \<and>
   search after_inserts 3 = Some ([0, 1], Some 1) \<and>
   keys_of after_inserts [1, 3, 4] = [3, 1, 6] \<and>
   left (heap after_inserts 1) = Some 3 \<and> right (heap after_inserts 1) = Some 4 \<and>
   minimum (heap after_inserts) (right (heap after_inserts 1)) = Some (Inr 6) \<and>
   key (heap after_inserts 6) = 4 \<and>
   delete after_inserts 3 = Some (Inr (Some 1, after_delete)) \<and>
   inorder after_delete = Some [1, 4, 6, 7, 8, 10, 13, 14] \<and>
   root after_delete = Some 0 \<and> left (heap after_delete 0) = Some 6 \<and>
   parent (heap after_delete 6) = Some 0 \<and>
   left (heap after_delete 6) = Some 3 \<and> right (heap after_delete 6) = Some 4 \<and>
   keys_of after_delete [0, 6, 3, 4] = [8, 4, 1, 6] \<and>
   search after_delete 13 = Some ([0, 2, 5, 8], Some 8) \<and>
   keys_of after_delete [0, 2, 5, 8] = [8, 10, 14, 13]"
proof (rule conjI)
  show "run BST_init scenario_inserts = Some (Inr after_inserts)"
    by (simp add: after_inserts_def scenario_inserts_def bst_eval)
qed (simp add: after_delete_def after_inserts_eq bst_eval keys_of_def)

text \<open>
  The claim as it stands names 6 as the successor and puts 6 where 3 was. The node
  of key 6 sits at address 4, the node of key 4 at address 6: the minimum of the right
  subtree of 3 is the latter, and it is the latter that becomes the left child of the
  root.
\<close>

theorem scenario_successor_counterexample:
  "keys_of after_inserts [1, 4, 6] = [3, 6, 4] \<and>
   right (heap after_inserts 1) = Some 4 \<and>
   minimum (heap after_inserts) (right (heap after_inserts 1)) \<noteq> Some (Inr 4) \<and>
   delete after_inserts 3 = Some (Inr (Some 1, after_delete)) \<and>
   left (heap after_delete 0) \<noteq> Some 4 \<and>
   keys_of after_delete [4, 6] = [6, 4]"
  by (simp add: after_delete_def after_inserts_eq bst_eval keys_of_def)

text \<open>
  C5. On a tree satisfying the invariants whose in-order sequence holds \<open>k\<close>,
  \<^verbatim>\<open>insert(k)\<close> returns \<^verbatim>\<open>(None, x)\<close> with \<open>x\<close> the node of the tree whose key is
  \<open>k\<close>, and the state it returns is the state it was given: no node allocated, no
  field assigned, so \<^verbatim>\<open>inorder()\<close>, \<^verbatim>\<open>depth()\<close> and \<^verbatim>\<open>nodes()\<close> are what they were.
  \<open>k\<close> occurs once in the in-order sequence.
\<close>

theorem insert_duplicate:
  assumes B: "bst_property s" and P: "parent_links s"
    and I: "inorder s = Some ks" and K: "k \<in> set ks"
  shows "\<exists>x ns. insert_bst s k = Some ((None, Some x), s) \<and> key (heap s x) = k \<and>
           nodes s = Some ns \<and> x \<in> set ns \<and> count_list ks k = 1"
proof -
  from invariants_shape [OF B P] obtain t where
    R: "repr (heap s) (root s) None t" and O: "ordered t"
    and N: "nodes s = Some (addrs t)" by auto
  from inorder_repr [OF R] I have ks: "ks = keys t" by simp
  with K have K': "k \<in> set (keys t)" by simp
  from insert_dup [OF R O K'] obtain x where
    i: "insert_bst s k = Some ((None, Some x), s)" and f: "find_node k t = Some x" by auto
  from find_node_key [OF R f] i N ks
    count_list_distinct [OF ordered_distinct_keys [OF O] K']
  show ?thesis by auto
qed

text \<open>Inserting the key 1 into the three-node tree again.\<close>

theorem insert_duplicate_witness:
  "bst_property small_tree \<and> parent_links small_tree \<and>
   inorder small_tree = Some [1, 2, 3] \<and>
   (\<exists>x. insert_bst small_tree 1 = Some ((None, Some x), small_tree) \<and>
      key (heap small_tree x) = 1) \<and>
   count_list [1, 2, 3 :: int] 1 = 1"
proof -
  from small_tree_invariants have B: "bst_property small_tree" and P: "parent_links small_tree"
    and I: "inorder small_tree = Some [1, 2, 3]" by simp_all
  have K: "(1::int) \<in> set [1, 2, 3]" by simp
  from insert_duplicate [OF B P I K] B P I show ?thesis by auto
qed

text \<open>
  C6. On a tree with consistent parent links whose in-order sequence does not hold
  \<open>k\<close>, \<^verbatim>\<open>delete(k)\<close> returns \<^verbatim>\<open>None\<close> and the state it was given, and \<^verbatim>\<open>search(k)\<close>
  returns no node together with the trail it walked.
\<close>

theorem absent_key_no_op:
  assumes P: "parent_links s" and I: "inorder s = Some ks" and K: "k \<notin> set ks"
  shows "delete s k = Some (Inr (None, s)) \<and>
         (\<exists>path. search s k = Some (path, None) \<and> is_trail (heap s) k (root s) path None)"
proof -
  from parent_links_shape [OF P] obtain t where R: "repr (heap s) (root s) None t" by auto
  from inorder_repr [OF R] I K have K': "k \<notin> set (keys t)" by simp
  from search_loop_repr [OF R, of k "[]"] find_node_None [OF K']
  have "search s k = Some (trail k t, None)" by (simp add: search_def)
  moreover from is_trail_repr [OF R, of k] find_node_None [OF K']
  have "is_trail (heap s) k (root s) (trail k t) None" by simp
  ultimately show ?thesis using delete_absent [OF R K'] by simp
qed

text \<open>The key 7 is not in the three-node tree; the search for it visits 2 and 3.\<close>

theorem absent_key_no_op_witness:
  "parent_links small_tree \<and> inorder small_tree = Some [1, 2, 3] \<and>
   delete small_tree 7 = Some (Inr (None, small_tree)) \<and>
   search small_tree 7 = Some ([0, 2], None) \<and>
   is_trail (heap small_tree) 7 (root small_tree) [0, 2] None"
proof -
  from small_tree_invariants have P: "parent_links small_tree"
    and I: "inorder small_tree = Some [1, 2, 3]" by simp_all
  have K: "(7::int) \<notin> set [1, 2, 3]" by simp
  have se: "search small_tree 7 = Some ([0, 2], None)" by (simp add: small_tree_eq bst_eval)
  have tr: "is_trail (heap small_tree) 7 (root small_tree) [0, 2] None"
    by (simp add: small_tree_eq)
  have d: "delete small_tree 7 = Some (Inr (None, small_tree))"
    using absent_key_no_op [OF P I K] by (rule conjunct1)
  from P I d se tr show ?thesis by (intro conjI)
qed

text \<open>
  C7 (as amended). On the empty tree \<^verbatim>\<open>depth()\<close> returns 0 and \<^verbatim>\<open>inorder()\<close> the empty
  list. \<^verbatim>\<open>minimum\<close> takes a node; handed the root of the empty tree, which is
  \<^verbatim>\<open>None\<close>, it raises \<^verbatim>\<open>AttributeError\<close>.
\<close>

theorem empty_tree_queries:
  assumes "root s = None"
  shows "depth s = Some 0 \<and> inorder s = Some [] \<and>
         minimum (heap s) (root s) = Some (Inl AttributeError)"
  using assms by (simp add: depth_def depth_h.simps inorder_def inorder_dfs.simps minimum.simps)

theorem empty_tree_queries_witness:
  "root BST_init = None \<and> depth BST_init = Some 0 \<and> inorder BST_init = Some [] \<and>
   minimum (heap BST_init) (root BST_init) = Some (Inl AttributeError)"
proof -
  have r: "root BST_init = None" by (simp add: BST_init_def)
  from empty_tree_queries [OF r] r show ?thesis by simp
qed

text \<open>The claim as it stands has \<^verbatim>\<open>minimum\<close> return on the empty tree; it raises.\<close>

theorem minimum_empty_counterexample:
  "minimum (heap BST_init) (root BST_init) = Some (Inl AttributeError)"
  by (simp add: BST_init_def minimum.simps)

text \<open>
  C8 (as amended). Starting from the empty tree, after every prefix of every sequence of calls
  every node listed by \<^verbatim>\<open>nodes()\<close> that has a parent is exactly one of that parent's
  two children, the children of every listed node point back at it, and the root has
  no parent. And on any state with these three properties, \<^verbatim>\<open>transplant(u, v)\<close>, for
  \<open>u\<close> a node of the tree and \<open>v\<close> either \<^verbatim>\<open>None\<close> or a node of the subtree below \<open>u\<close>
  (one the walk of \<^verbatim>\<open>nodes\<close> started at \<open>u\<close> lists), leaves a state with the same
  three properties.
\<close>

theorem parent_links_preserved:
  "(root s = None \<longrightarrow> (\<forall>n. \<exists>s'. run s (take n ops) = Some (Inr s') \<and> parent_links s')) \<and>
   (parent_links st \<and> nodes st = Some ns \<and> u \<in> set ns \<and>
    nodes_dfs (heap st) (Some u) [] = Some us \<and> (v = None \<or> (\<exists>w \<in> set us. v = Some w)) \<longrightarrow>
      parent_links (transplant st u v))"
proof (intro conjI impI allI)
  fix n
  assume "root s = None"
  from run_well_formed [OF empty_well_formed [OF this], of "take n ops"]
  obtain s' t' where "run s (take n ops) = Some (Inr s')" and "well_formed s' t'" by auto
  then show "\<exists>s'. run s (take n ops) = Some (Inr s') \<and> parent_links s'"
    using well_formed_parent_links by blast
next
  assume a: "parent_links st \<and> nodes st = Some ns \<and> u \<in> set ns \<and>
    nodes_dfs (heap st) (Some u) [] = Some us \<and> (v = None \<or> (\<exists>w \<in> set us. v = Some w))"
  then have P: "parent_links st" and N: "nodes st = Some ns"
    and U: "u \<in> set ns" and S: "nodes_dfs (heap st) (Some u) [] = Some us"
    and V: "v = None \<or> (\<exists>w \<in> set us. v = Some w)" by blast+
  from parent_links_shape [OF P] obtain t where
    R: "repr (heap st) (root st) None t" and N': "nodes st = Some (addrs t)" by auto
  note D = parent_links_distinct [OF P R N']
  from N N' U have U': "u \<in> set (addrs t)" by simp
  from nodes_dfs_repr [OF repr_below [OF R D U'], of "[]"] S
  have "us = addrs (below u t)" by simp
  with V have "v = None \<or> (\<exists>w \<in> set (addrs (below u t)). v = Some w)" by simp
  with R D U' show "parent_links (transplant st u v)" by (rule transplant_parent_links)
qed

text \<open>
  \<open>small_ops\<close> on the initial state; on the three-node tree, the left child moved into
  the root's place, and the right leaf replaced by nothing.
\<close>

theorem parent_links_preserved_witness:
  "root BST_init = None \<and> run BST_init (take 4 small_ops) = Some (Inr small_after) \<and>
   nodes small_after = Some [1, 2] \<and> parent_links small_after \<and>
   parent_links small_tree \<and> nodes small_tree = Some [1, 0, 2] \<and>
   nodes_dfs (heap small_tree) (Some 0) [] = Some [1, 0, 2] \<and>
   nodes_dfs (heap small_tree) (Some 2) [] = Some [2] \<and>
   parent_links (transplant small_tree 0 (Some 1)) \<and>
   parent_links (transplant small_tree 2 None)"
proof -
  have r: "root BST_init = None" by (simp add: BST_init_def)
  from small_tree_invariants have P: "parent_links small_tree"
    and N: "nodes small_tree = Some [1, 0, 2]" by simp_all
  have S0: "nodes_dfs (heap small_tree) (Some 0) [] = Some [1, 0, 2]"
    and S2: "nodes_dfs (heap small_tree) (Some 2) [] = Some [2]"
    by (simp_all add: small_tree_eq nodes_dfs.simps)
  have t: "take 4 small_ops = small_ops" by (simp add: small_ops_def)
  note a = parent_links_preserved [of BST_init small_ops small_tree "[1, 0, 2]" 0 "[1, 0, 2]" "Some 1"]
  note b = parent_links_preserved [of BST_init small_ops small_tree "[1, 0, 2]" 2 "[2]" None]
  from a r obtain s' where "run BST_init (take 4 small_ops) = Some (Inr s')"
    and "parent_links s'" by blast
  with small_after_eval t have "parent_links small_after" by simp
  moreover from a P N S0 have "parent_links (transplant small_tree 0 (Some 1))" by simp
  moreover from b P N S2 have "parent_links (transplant small_tree 2 None)" by simp
  ultimately show ?thesis using small_after_eval r t P N S0 S2 by simp
qed

text \<open>
  The claim as it stands has \<^verbatim>\<open>transplant\<close> keep the links consistent whatever it is
  handed. In the three-node tree the node at address 1 is the left child of the root
  and the node at address 2 the right one; \<^verbatim>\<open>transplant\<close> of the one by the other makes
  the node at 2 both children of the root.
\<close>

theorem transplant_sibling_counterexample:
  "parent_links small_tree \<and> nodes small_tree = Some [1, 0, 2] \<and>
   \<not> parent_links (transplant small_tree 1 (Some 2))"
  by (simp add: small_tree_eq parent_links_def nodes_def nodes_dfs.simps
      child_of_parent_def parent_of_children_def transplant_def is_left_child_def
      set_left_def set_right_def set_parent_def Let_def)

text \<open>
  C9. On any tree with consistent parent links \<^verbatim>\<open>search(k)\<close> returns a path and a
  result such that the path is the trail of \<open>k\<close> from the root (\<open>is_trail\<close>: root first,
  left on smaller, right on larger, ending at a node with key \<open>k\<close>, which is then the
  result, or where the child to descend to is missing, with no result); the path is
  empty exactly when the tree is.
\<close>

theorem search_trail:
  assumes "parent_links s"
  shows "\<exists>path found. search s k = Some (path, found) \<and>
           is_trail (heap s) k (root s) path found \<and>
           (\<forall>z. found = Some z \<longrightarrow> key (heap s z) = k \<and> last path = z) \<and>
           (path = [] \<longleftrightarrow> root s = None)"
proof -
  from parent_links_shape [OF assms] obtain t where R: "repr (heap s) (root s) None t"
    by auto
  from search_loop_repr [OF R, of k "[]"]
  have "search s k = Some (trail k t, find_node k t)" by (simp add: search_def)
  moreover note is_trail_repr [OF R, of k]
  moreover have "\<forall>z. find_node k t = Some z \<longrightarrow> key (heap s z) = k \<and> last (trail k t) = z"
    using find_node_key [OF R] find_node_last by blast
  moreover have "trail k t = [] \<longleftrightarrow> root s = None"
    using R by (cases t) auto
  ultimately show ?thesis
    by - (rule exI [of _ "trail k t"], rule exI [of _ "find_node k t"], simp)
qed

text \<open>Searching 3 in the three-node tree.\<close>

theorem search_trail_witness:
  "parent_links small_tree \<and>
   search small_tree 3 = Some ([0, 2], Some 2) \<and>
   is_trail (heap small_tree) 3 (root small_tree) [0, 2] (Some 2)"
proof -
  from small_tree_invariants have P: "parent_links small_tree" by simp
  have "search small_tree 3 = Some ([0, 2], Some 2)" by (simp add: small_tree_eq bst_eval)
  with search_trail [OF P, of 3] P show ?thesis by auto
qed

text \<open>
  C10 (as amended). On a tree satisfying the invariants whose in-order sequence does
  not hold \<open>k\<close>, \<^verbatim>\<open>insert(k)\<close> followed by \<^verbatim>\<open>delete(k)\<close> returns and leaves the in-order
  key sequence, hence the key set, as it was; the invariants hold again.
\<close>

theorem insert_delete_inverse:
  assumes B: "bst_property s" and P: "parent_links s" and A: "allocated s"
    and I: "inorder s = Some ks" and K: "k \<notin> set ks"
  shows "\<exists>s'. run s [Insert k, Delete k] = Some (Inr s') \<and> inorder s' = Some ks \<and>
           bst_property s' \<and> parent_links s'"
proof -
  from invariants_well_formed [OF B P A] obtain t where W: "well_formed s t" ..
  from inorder_well_formed [OF W] I have ks: "ks = keys t" by simp
  from run_well_formed [OF W, of "[Insert k, Delete k]"] obtain s' t' where
    r: "run s [Insert k, Delete k] = Some (Inr s')" and w: "well_formed s' t'"
    and e: "set (keys t') = set (keys t) \<union> {k} - {k}" by auto
  from e K ks have "set (keys t') = set (keys t)" by auto
  moreover from w W have "sorted_wrt (<) (keys t')" "sorted_wrt (<) (keys t)"
    by (simp_all add: well_formed_def ordered_sorted)
  ultimately have "keys t' = keys t" by (simp add: strictly_sorted_unique)
  with r ks inorder_well_formed [OF w] well_formed_bst_property [OF w]
    well_formed_parent_links [OF w] show ?thesis by simp
qed

text \<open>Key 7 into the three-node tree and out again.\<close>

theorem insert_delete_inverse_witness:
  "bst_property small_tree \<and> parent_links small_tree \<and> allocated small_tree \<and>
   inorder small_tree = Some [1, 2, 3] \<and>
   (\<exists>s'. run small_tree [Insert 7, Delete 7] = Some (Inr s') \<and>
      inorder s' = Some [1, 2, 3] \<and> bst_property s' \<and> parent_links s')"
proof -
  from small_tree_invariants have B: "bst_property small_tree" and P: "parent_links small_tree"
    and A: "allocated small_tree" and I: "inorder small_tree = Some [1, 2, 3]" by simp_all
  have K: "(7::int) \<notin> set [1, 2, 3]" by simp
  from insert_delete_inverse [OF B P A I K] B P A I show ?thesis by simp
qed

text \<open>
  The claim as it stands covers keys already in the tree. There the insert changes
  nothing and the delete removes the key that was there before: the tree holding just
  5 is empty after \<^verbatim>\<open>insert(5)\<close> and \<^verbatim>\<open>delete(5)\<close>.
\<close>

theorem insert_delete_counterexample:
  "inorder single_tree = Some [5] \<and>
   run single_tree [Insert 5, Delete 5] = Some (Inr round_trip) \<and>
   inorder round_trip = Some []"
  by (simp add: round_trip_def single_tree_def bst_eval)

end
